theory Spec2Isabelle
  imports Complex_Main "HOL-Library.Word" "HOL-Library.Log_Nat"
begin

section \<open>Audio codec utilities\<close>

text \<open>
  The live conversation of \<^verbatim>\<open>LiveAnalyst\<close> (src/services/geminiService.ts, lines 431 to 582)
  and the codec helpers above it (lines 244 to 276) are embedded here. Bytes of a
  \<^verbatim>\<open>Uint8Array\<close> are 8-bit words, samples of an \<^verbatim>\<open>Int16Array\<close> are 16-bit words.
  A JavaScript string is a \<open>string\<close>; the binary strings that \<^verbatim>\<open>btoa\<close> and \<^verbatim>\<open>atob\<close>
  exchange hold one byte per character, which is what a \<open>char\<close> is.
\<close>

type_synonym u8 = "8 word"
type_synonym i16 = "16 word"

text \<open>
  What the inbound audio path can throw: \<^verbatim>\<open>atob\<close> on text that is not base64
  (\<open>InvalidCharacterError\<close>), \<^verbatim>\<open>new Int16Array(buffer)\<close> on an odd number of bytes
  (\<open>RangeError\<close>), \<^verbatim>\<open>createBuffer\<close> on zero frames (\<open>NotSupportedError\<close>), and the
  index \<^verbatim>\<open>parts[0]\<close> of line 533 on a \<^verbatim>\<open>modelTurn\<close> that has no \<^verbatim>\<open>parts\<close>
  (\<open>TypeError\<close>).
\<close>

datatype js_error = InvalidCharacterError | RangeError | NotSupportedError | TypeError

subsection \<open>The platform's base64 functions\<close>

text \<open>
  \<^verbatim>\<open>btoa\<close> and \<^verbatim>\<open>atob\<close> are functions of the browser, not of the repository. They are
  written out after the HTML standard: \<^verbatim>\<open>btoa\<close> is the base64 encoding of RFC 4648 with
  padding, \<^verbatim>\<open>atob\<close> is the forgiving-base64 decoding (ASCII whitespace removed, one or
  two padding characters removed when the length is a multiple of four, failure on a
  length of 1 modulo 4 or on a character outside the alphabet, left-over bits dropped).
\<close>

definition alphabet :: string where
  "alphabet = ''ABCDEFGHIJKLMNOPQRSTUVWXYZabcdefghijklmnopqrstuvwxyz0123456789+/''"

definition enc6 :: "nat \<Rightarrow> char" where
  "enc6 n = alphabet ! n"

primrec position :: "'a \<Rightarrow> 'a list \<Rightarrow> nat option" where
  "position x [] = None"
| "position x (y # ys) = (if x = y then Some 0 else map_option Suc (position x ys))"

definition dec6 :: "char \<Rightarrow> nat option" where
  "dec6 c = position c alphabet"

fun bytes_to_sextets :: "nat list \<Rightarrow> nat list" where
  "bytes_to_sextets (a # b # c # rest) =
     [a div 4, (a mod 4) * 16 + b div 16, (b mod 16) * 4 + c div 64, c mod 64] @ bytes_to_sextets rest"
| "bytes_to_sextets [a, b] = [a div 4, (a mod 4) * 16 + b div 16, (b mod 16) * 4]"
| "bytes_to_sextets [a] = [a div 4, (a mod 4) * 16]"
| "bytes_to_sextets [] = []"

definition btoa :: "string \<Rightarrow> string" where
  "btoa binary = map enc6 (bytes_to_sextets (map of_char binary))
     @ replicate ((3 - length binary mod 3) mod 3) (CHR ''='')"

definition ascii_whitespace :: "char \<Rightarrow> bool" where
  "ascii_whitespace c =
     (c = CHR 0x09 \<or> c = CHR 0x0A \<or> c = CHR 0x0C \<or> c = CHR 0x0D \<or> c = CHR 0x20)"

definition strip_padding :: "string \<Rightarrow> string" where
  "strip_padding d =
     (if length d mod 4 = 0 \<and> d \<noteq> [] \<and> last d = CHR ''='' then
        (if butlast d \<noteq> [] \<and> last (butlast d) = CHR ''='' then butlast (butlast d)
         else butlast d)
      else d)"

fun sextets_to_bytes :: "nat list \<Rightarrow> nat list" where
  "sextets_to_bytes (p # q # r # s # rest) =
     [p * 4 + q div 16, (q mod 16) * 16 + r div 4, (r mod 4) * 64 + s] @ sextets_to_bytes rest"
| "sextets_to_bytes [p, q, r] = [p * 4 + q div 16, (q mod 16) * 16 + r div 4]"
| "sextets_to_bytes [p, q] = [p * 4 + q div 16]"
| "sextets_to_bytes [p] = []"
| "sextets_to_bytes [] = []"

definition atob :: "string \<Rightarrow> js_error + string" where
  "atob data =
     (let d = strip_padding (filter (\<lambda>c. \<not> ascii_whitespace c) data) in
      if length d mod 4 = 1 then Inl InvalidCharacterError
      else (case those (map dec6 d) of
              None \<Rightarrow> Inl InvalidCharacterError
            | Some sextets \<Rightarrow> Inr (map char_of (sextets_to_bytes sextets))))"

subsection \<open>decode and encode (lines 245 to 253 and 269 to 276)\<close>

text \<open>
  \<^verbatim>\<open>decode\<close> copies the character codes of \<^verbatim>\<open>atob(base64)\<close> into a byte array and lets
  the exception of \<^verbatim>\<open>atob\<close> pass; \<^verbatim>\<open>encode\<close> builds the binary string with
  \<^verbatim>\<open>String.fromCharCode\<close> and hands it to \<^verbatim>\<open>btoa\<close>.
\<close>

definition decode :: "string \<Rightarrow> js_error + u8 list" where
  "decode base64 =
     (case atob base64 of
        Inl e \<Rightarrow> Inl e
      | Inr binaryString \<Rightarrow> Inr (map (\<lambda>c. word_of_nat (of_char c)) binaryString))"

definition encode :: "u8 list \<Rightarrow> string" where
  "encode bytes = btoa (map (\<lambda>b. char_of (unat b)) bytes)"

subsection \<open>Samples\<close>

text \<open>
  A sample is a finite binary32 value read from a \<^verbatim>\<open>Float32Array\<close>, taken here as the
  real number it denotes. The two conversions of the source are exact on such values:
  \<^verbatim>\<open>inputData[i] * 32768\<close> multiplies by a power of two in binary64, and
  \<^verbatim>\<open>dataInt16[k] / 32768.0\<close> has at most 16 significant bits. Storing a number into an
  \<^verbatim>\<open>Int16Array\<close> is the conversion ToInt16 of ECMAScript: truncate towards zero, reduce
  modulo \<open>2 ^ 16\<close>, read as two's complement. Nothing clamps.
\<close>

definition js_trunc :: "real \<Rightarrow> int" where
  "js_trunc x = (if 0 \<le> x then \<lfloor>x\<rfloor> else \<lceil>x\<rceil>)"

definition float_to_int16 :: "real \<Rightarrow> i16" where
  "float_to_int16 x = word_of_int (js_trunc (x * 32768))"

definition int16_to_float :: "i16 \<Rightarrow> real" where
  "int16_to_float w = real_of_int (sint w) / 32768"

text \<open>
  \<^verbatim>\<open>new Uint8Array(int16.buffer)\<close> and \<^verbatim>\<open>new Int16Array(data.buffer)\<close> are views of the
  same memory, low byte first on the little-endian machines browsers run on.
\<close>

definition int16_bytes :: "i16 \<Rightarrow> u8 list" where
  "int16_bytes w = [ucast w, ucast (drop_bit 8 w)]"

fun int16_array :: "u8 list \<Rightarrow> i16 list" where
  "int16_array (lo # hi # rest) = word_of_nat (unat lo + 256 * unat hi) # int16_array rest"
| "int16_array [lo] = []"
| "int16_array [] = []"

subsection \<open>Numbers\<close>

text \<open>
  A JavaScript number is an IEEE 754 binary64 value; a finite one is taken here as the
  real number it denotes, and an arithmetic operation gives the exact result rounded
  to the nearest such value, ties to the even significand. \<open>binary64 x\<close> is that
  rounding: \<open>exponent x\<close> is the integer part of the binary logarithm of a positive \<open>x\<close>,
  \<open>ulp x\<close> the spacing of the values around \<open>x\<close> (53 significant bits, and the fixed
  spacing \<open>2 powi - 1074\<close> of the subnormal range below \<open>2 powi - 1022\<close>). The exponent
  is not bounded above: a result of magnitude \<open>2 ^ 1024\<close> or more, an Infinity in the code,
  is outside the model; the numbers rounded below are times in seconds on the clock of
  an audio context.
\<close>

definition round_half_even :: "real \<Rightarrow> int" where
  "round_half_even x =
     (let n = \<lfloor>x\<rfloor>; r = x - of_int n in
      if r < 1 / 2 then n else if 1 / 2 < r then n + 1 else if even n then n else n + 1)"

definition exponent :: "real \<Rightarrow> int" where
  "exponent x = (if 1 \<le> x then bitlen \<lfloor>x\<rfloor> - 1 else - bitlen (\<lceil>1 / x\<rceil> - 1))"

definition ulp :: "real \<Rightarrow> real" where
  "ulp x = 2 powi (max (exponent x) (- 1022) - 52)"

definition round_magnitude :: "real \<Rightarrow> real" where
  "round_magnitude x = ulp x * of_int (round_half_even (x / ulp x))"

definition binary64 :: "real \<Rightarrow> real" where
  "binary64 x = (if x = 0 then 0 else sgn x * round_magnitude \<bar>x\<bar>)"

subsection \<open>decodeAudioData (lines 255 to 267)\<close>

text \<open>
  An \<^verbatim>\<open>AudioBuffer\<close>: its channels, its length in frames and its sample rate; the
  \<^verbatim>\<open>duration\<close> attribute is the number nearest to the length over the rate.
  \<^verbatim>\<open>new Int16Array(data.buffer)\<close> throws on an odd byte length, and \<^verbatim>\<open>createBuffer\<close>
  throws when a count is zero.
\<close>

record audio_buffer =
  channelData :: "real list list"
  bufferLength :: nat
  bufferRate :: nat

definition duration :: "audio_buffer \<Rightarrow> real" where
  "duration b = binary64 (real (bufferLength b) / real (bufferRate b))"

definition decodeAudioData :: "u8 list \<Rightarrow> nat \<Rightarrow> nat \<Rightarrow> js_error + audio_buffer" where
  "decodeAudioData data sampleRate numChannels =
     (if odd (length data) then Inl RangeError
      else
        (let dataInt16 = int16_array data;
             frameCount = length dataInt16 div numChannels
         in if numChannels = 0 \<or> frameCount = 0 \<or> sampleRate = 0 then Inl NotSupportedError
            else Inr \<lparr>channelData =
                        map (\<lambda>channel.
                               map (\<lambda>i. int16_to_float (dataInt16 ! (i * numChannels + channel)))
                                 [0..<frameCount])
                          [0..<numChannels],
                      bufferLength = frameCount, bufferRate = sampleRate\<rparr>))"

section \<open>The live session\<close>

subsection \<open>Objects and effects\<close>

text \<open>
  Browser objects carry the number they were created under. An \<^verbatim>\<open>AudioContext\<close> reports
  its \<^verbatim>\<open>state\<close>. \<^verbatim>\<open>close()\<close> returns a promise, and the Web Audio specification sets the
  attribute to \<^verbatim>\<open>closed\<close> in a task queued when the close has completed: that is a step
  of the environment here (\<open>context_closed\<close> below), not of the call. A browser that
  completes the close at once is the case where that step follows the call directly.
\<close>

datatype context_state = Suspended | Running | Closed

record audio_context =
  ctx_id :: nat
  ctx_rate :: nat
  ctx_state :: context_state

record media_stream =
  stream_id :: nat
  stream_tracks :: "nat list"

record buffer_source =
  source_id :: nat
  start_at :: real
  buffer_duration :: real

record transcript_turn =
  user :: string
  model :: string

text \<open>Every call on an object outside the component is logged, in order.\<close>

datatype action =
    ConsoleError string
  | Alert string
  | SessionClose nat
  | Disconnect nat
  | Connect nat nat
  | ConnectToDestination nat nat
  | TrackStop nat
  | ContextClose nat
  | SourceStart nat real real
  | SourceStop nat
  | SendRealtimeInput string

text \<open>What a \<^verbatim>\<open>catch\<close> can receive: an \<^verbatim>\<open>Error\<close> with its message, or any other value.\<close>

datatype thrown = ErrorObject string | OtherValue

subsection \<open>State of the component (lines 432 to 443, 488 and 489)\<close>

text \<open>
  The React state, the refs, and the transcription buffers. The two buffers are
  \<^verbatim>\<open>let\<close> variables of \<^verbatim>\<open>startConversation\<close> (lines 488 and 489): every call that gets
  as far declares a pair of its own, which only the \<^verbatim>\<open>onmessage\<close> of that call reads and
  writes. That is a store here, indexed by the number of the call: \<open>nextCall\<close> is the
  number the next pair gets, and a pair not yet declared is never read. The clock
  \<open>nextStartTimeRef\<close> and the start times are numbers (binary64 values). \<open>effects\<close> is the
  log of calls made so far, \<open>nextObject\<close> the number the next created object gets.
\<close>

record live_analyst =
  isConnecting :: bool
  isLive :: bool
  transcriptions :: "transcript_turn list"
  sessionRef :: "nat option"
  audioContextRef :: "audio_context option"
  outputAudioContextRef :: "audio_context option"
  processorRef :: "nat option"
  streamRef :: "media_stream option"
  mediaStreamSourceRef :: "nat option"
  nextStartTimeRef :: real
  sourcesRef :: "buffer_source list"
  currentInputTranscription :: "nat \<Rightarrow> string"
  currentOutputTranscription :: "nat \<Rightarrow> string"
  nextCall :: nat
  effects :: "action list"
  nextObject :: nat

definition initial :: live_analyst where
  "initial =
     \<lparr>isConnecting = False, isLive = False, transcriptions = [], sessionRef = None,
      audioContextRef = None, outputAudioContextRef = None, processorRef = None,
      streamRef = None, mediaStreamSourceRef = None, nextStartTimeRef = 0, sourcesRef = [],
      currentInputTranscription = (\<lambda>call. []), currentOutputTranscription = (\<lambda>call. []),
      nextCall = 0, effects = [], nextObject = 0\<rparr>"

text \<open>The session state of the specification, read off the two flags.\<close>

datatype session_state = Idle | Connecting | Live

definition session_state :: "live_analyst \<Rightarrow> session_state" where
  "session_state s = (if isLive s then Live else if isConnecting s then Connecting else Idle)"

definition perform :: "action list \<Rightarrow> live_analyst \<Rightarrow> live_analyst" where
  "perform acts s = s\<lparr>effects := effects s @ acts\<rparr>"

subsection \<open>stopConversation (lines 445 to 474)\<close>

definition release_session :: "live_analyst \<Rightarrow> live_analyst" where
  "release_session s =
     (case sessionRef s of
        None \<Rightarrow> s
      | Some session \<Rightarrow> (perform [SessionClose session] s)\<lparr>sessionRef := None\<rparr>)"

definition release_processor :: "live_analyst \<Rightarrow> live_analyst" where
  "release_processor s =
     (case processorRef s of
        None \<Rightarrow> s
      | Some node \<Rightarrow> (perform [Disconnect node] s)\<lparr>processorRef := None\<rparr>)"

definition release_media_source :: "live_analyst \<Rightarrow> live_analyst" where
  "release_media_source s =
     (case mediaStreamSourceRef s of
        None \<Rightarrow> s
      | Some node \<Rightarrow> (perform [Disconnect node] s)\<lparr>mediaStreamSourceRef := None\<rparr>)"

definition release_stream :: "live_analyst \<Rightarrow> live_analyst" where
  "release_stream s =
     (case streamRef s of
        None \<Rightarrow> s
      | Some stream \<Rightarrow> (perform (map TrackStop (stream_tracks stream)) s)\<lparr>streamRef := None\<rparr>)"

text \<open>
  The two context refs are not cleared, and the guard reads the reported state: a context
  whose close has not completed yet is closed again.
\<close>

definition close_context :: "audio_context option \<Rightarrow> action list" where
  "close_context ref =
     (case ref of
        None \<Rightarrow> []
      | Some ctx \<Rightarrow> if ctx_state ctx \<noteq> Closed then [ContextClose (ctx_id ctx)] else [])"

text \<open>
  Lines 469 to 471, and again lines 547 to 549: stop every source of the set in insertion
  order, clear the set, reset the clock.
\<close>

definition flush :: "live_analyst \<Rightarrow> live_analyst" where
  "flush s =
     (perform (map (\<lambda>source. SourceStop (source_id source)) (sourcesRef s)) s)
       \<lparr>sourcesRef := [], nextStartTimeRef := 0\<rparr>"

definition stopConversation :: "live_analyst \<Rightarrow> live_analyst" where
  "stopConversation s0 =
     (let s1 = release_session s0;
          s2 = release_processor s1;
          s3 = release_media_source s2;
          s4 = release_stream s3;
          s5 = perform (close_context (audioContextRef s4)) s4;
          s6 = perform (close_context (outputAudioContextRef s5)) s5;
          s7 = flush s6
      in s7\<lparr>isLive := False, isConnecting := False\<rparr>)"

subsection \<open>The callbacks of the session (lines 494 to 559)\<close>

text \<open>
  \<^verbatim>\<open>onopen\<close> dereferences both refs with \<^verbatim>\<open>!\<close>; on an empty ref the call throws inside the
  callback before anything is assigned, which is \<open>None\<close> here.
\<close>

definition on_open :: "live_analyst \<Rightarrow> live_analyst option" where
  "on_open s =
     (case audioContextRef s of
        None \<Rightarrow> None
      | Some ctx \<Rightarrow>
          (case streamRef s of
             None \<Rightarrow> None
           | Some stream \<Rightarrow>
               (let source = nextObject s; processor = nextObject s + 1
                in Some ((perform [Connect source processor,
                                   ConnectToDestination processor (ctx_id ctx)] s)
                           \<lparr>mediaStreamSourceRef := Some source, processorRef := Some processor,
                            nextObject := nextObject s + 2,
                            isConnecting := False, isLive := True\<rparr>))))"

text \<open>\<^verbatim>\<open>onaudioprocess\<close> (lines 498 to 511): one captured frame is converted, encoded and sent.\<close>

definition on_audio_process :: "real list \<Rightarrow> live_analyst \<Rightarrow> live_analyst" where
  "on_audio_process inputData s =
     (let int16 = map float_to_int16 inputData
      in perform [SendRealtimeInput (encode (concat (map int16_bytes int16)))] s)"

text \<open>
  A server message, as far as \<^verbatim>\<open>onmessage\<close> reads it. A transcription is present or not,
  and its \<^verbatim>\<open>text\<close> is a string or undefined. \<^verbatim>\<open>modelTurn\<close> is present or not; when it
  is, its \<^verbatim>\<open>parts\<close> (an optional field of \<^verbatim>\<open>Content\<close>) are present or not; the parts are
  listed by their inline data, a string or undefined, and only the first is read.
\<close>

record message =
  outputTranscription :: "string option option"
  inputTranscription :: "string option option"
  turnComplete :: bool
  modelTurn :: "string option list option option"
  interrupted :: bool

text \<open>
  \<^verbatim>\<open>s += text\<close> appends the text \<^verbatim>\<open>undefined\<close> when the field is missing. The three
  transcript steps of \<^verbatim>\<open>onmessage\<close> (lines 519 to 531) work on the buffers of their own
  call of \<^verbatim>\<open>startConversation\<close>, the first argument.
\<close>

definition js_text :: "string option \<Rightarrow> string" where
  "js_text t = (case t of None \<Rightarrow> ''undefined'' | Some text \<Rightarrow> text)"

definition append_output_transcription :: "nat \<Rightarrow> message \<Rightarrow> live_analyst \<Rightarrow> live_analyst" where
  "append_output_transcription call m s =
     (case outputTranscription m of
        None \<Rightarrow> s
      | Some t \<Rightarrow>
          s\<lparr>currentOutputTranscription :=
              (currentOutputTranscription s)(call := currentOutputTranscription s call @ js_text t)\<rparr>)"

definition append_input_transcription :: "nat \<Rightarrow> message \<Rightarrow> live_analyst \<Rightarrow> live_analyst" where
  "append_input_transcription call m s =
     (case inputTranscription m of
        None \<Rightarrow> s
      | Some t \<Rightarrow>
          s\<lparr>currentInputTranscription :=
              (currentInputTranscription s)(call := currentInputTranscription s call @ js_text t)\<rparr>)"

definition complete_turn :: "nat \<Rightarrow> message \<Rightarrow> live_analyst \<Rightarrow> live_analyst" where
  "complete_turn call m s =
     (if turnComplete m then
        s\<lparr>transcriptions :=
             transcriptions s @
               [\<lparr>user = currentInputTranscription s call,
                 model = currentOutputTranscription s call\<rparr>],
          currentInputTranscription := (currentInputTranscription s)(call := []),
          currentOutputTranscription := (currentOutputTranscription s)(call := [])\<rparr>
      else s)"

text \<open>
  Line 533, \<^verbatim>\<open>message.serverContent?.modelTurn?.parts[0]?.inlineData?.data\<close>: there is no
  \<^verbatim>\<open>?.\<close> between \<^verbatim>\<open>parts\<close> and the index, so a \<^verbatim>\<open>modelTurn\<close> without \<^verbatim>\<open>parts\<close> throws a
  \<^verbatim>\<open>TypeError\<close>; every other missing link gives \<^verbatim>\<open>undefined\<close>.
\<close>

definition base64Audio :: "message \<Rightarrow> js_error + string option" where
  "base64Audio m =
     (case modelTurn m of
        None \<Rightarrow> Inr None
      | Some None \<Rightarrow> Inl TypeError
      | Some (Some []) \<Rightarrow> Inr None
      | Some (Some (part # _)) \<Rightarrow> Inr part)"

text \<open>
  Lines 535 to 543, with \<open>currentTime\<close> the time the output context reports. The clock is
  raised to the device time before the payload is decoded, so that assignment stays when
  decoding throws. \<^verbatim>\<open>Math.max\<close> returns one of its arguments; the sum of line 542 is
  rounded.
\<close>

definition enqueue :: "real \<Rightarrow> string \<Rightarrow> audio_context \<Rightarrow> live_analyst \<Rightarrow> js_error option \<times> live_analyst" where
  "enqueue currentTime base64 ctx s =
     (let s1 = s\<lparr>nextStartTimeRef := max (nextStartTimeRef s) currentTime\<rparr> in
      case decode base64 of
        Inl e \<Rightarrow> (Some e, s1)
      | Inr data \<Rightarrow>
          (case decodeAudioData data 24000 1 of
             Inl e \<Rightarrow> (Some e, s1)
           | Inr audioBuffer \<Rightarrow>
               (let source = \<lparr>source_id = nextObject s1, start_at = nextStartTimeRef s1,
                               buffer_duration = duration audioBuffer\<rparr>
                in (None,
                    (perform [ConnectToDestination (source_id source) (ctx_id ctx),
                              SourceStart (source_id source) (start_at source) (duration audioBuffer)] s1)
                      \<lparr>nextObject := nextObject s1 + 1,
                       nextStartTimeRef := binary64 (nextStartTimeRef s1 + duration audioBuffer),
                       sourcesRef := sourcesRef s1 @ [source]\<rparr>))))"

definition play_audio :: "real \<Rightarrow> message \<Rightarrow> live_analyst \<Rightarrow> js_error option \<times> live_analyst" where
  "play_audio currentTime m s =
     (case base64Audio m of
        Inl e \<Rightarrow> (Some e, s)
      | Inr None \<Rightarrow> (None, s)
      | Inr (Some base64) \<Rightarrow>
          if base64 = [] then (None, s)
          else (case outputAudioContextRef s of
                  None \<Rightarrow> (None, s)
                | Some ctx \<Rightarrow> enqueue currentTime base64 ctx s))"

text \<open>
  \<^verbatim>\<open>onmessage\<close> of the call \<open>call\<close> of \<^verbatim>\<open>startConversation\<close>. It is an async function: an
  exception ends the call with a rejected promise (the error, first component) and
  keeps the assignments made before it. The steps of one call run without another
  callback of the component in between: the one \<^verbatim>\<open>await\<close> (line 536) is on a promise that
  is already settled, so the rest runs as a microtask of the same task.
\<close>

definition on_message ::
  "nat \<Rightarrow> real \<Rightarrow> message \<Rightarrow> live_analyst \<Rightarrow> js_error option \<times> live_analyst" where
  "on_message call currentTime m s =
     (let s1 = append_output_transcription call m s;
          s2 = append_input_transcription call m s1;
          s3 = complete_turn call m s2
      in case play_audio currentTime m s3 of
           (Some e, s4) \<Rightarrow> (Some e, s4)
         | (None, s4) \<Rightarrow> (None, if interrupted m then flush s4 else s4))"

text \<open>The \<^verbatim>\<open>ended\<close> listener of a source (line 540) takes it out of the set.\<close>

definition source_ended :: "nat \<Rightarrow> live_analyst \<Rightarrow> live_analyst" where
  "source_ended n s = s\<lparr>sourcesRef := filter (\<lambda>source. source_id source \<noteq> n) (sourcesRef s)\<rparr>"

definition on_error :: "live_analyst \<Rightarrow> live_analyst" where
  "on_error s =
     stopConversation
       (perform [ConsoleError ''Live API Error:'', Alert ''A connection error occurred.''] s)"

definition on_close :: "live_analyst \<Rightarrow> live_analyst" where
  "on_close s = stopConversation s"

subsection \<open>startConversation (lines 476 to 576)\<close>

text \<open>
  What the platform answers to the acquisitions of one start, in the order of the code:
  the client object, the context at the capture rate, the context at the playback rate,
  the microphone stream (with its number of tracks), the session. A failed
  \<^verbatim>\<open>live.connect\<close> is one that rejects without having opened; a successful one has called
  \<^verbatim>\<open>onopen\<close> before its promise resolves. Between the stream and the session the call
  declares its two buffers, empty (lines 488 and 489); the pairs of earlier calls are
  out of its reach.
\<close>

record start_env =
  client_fails :: "thrown option"
  input_context_fails :: "thrown option"
  output_context_fails :: "thrown option"
  user_media :: "thrown + nat"
  connect_fails :: "thrown option"

definition error_text :: "thrown \<Rightarrow> string" where
  "error_text e = (case e of ErrorObject m \<Rightarrow> m | OtherValue \<Rightarrow> ''Unknown error'')"

definition catch_start :: "thrown \<Rightarrow> live_analyst \<Rightarrow> live_analyst" where
  "catch_start e s =
     stopConversation
       (perform [ConsoleError ''Failed to start conversation:'',
                 Alert (''Could not start the conversation: '' @ error_text e)] s)"

text \<open>The numbers of \<open>n\<close> objects created in a row, the first under \<open>first\<close>.\<close>

definition fresh_objects :: "nat \<Rightarrow> nat \<Rightarrow> nat list" where
  "fresh_objects first n = map (\<lambda>k. first + k) [0..<n]"

definition new_context :: "nat \<Rightarrow> live_analyst \<Rightarrow> audio_context" where
  "new_context rate s = \<lparr>ctx_id = nextObject s, ctx_rate = rate, ctx_state = Suspended\<rparr>"

definition startConversation :: "start_env \<Rightarrow> live_analyst \<Rightarrow> live_analyst" where
  "startConversation env s0 =
     (let s1 = s0\<lparr>isConnecting := True, transcriptions := []\<rparr> in
      case client_fails env of
        Some e \<Rightarrow> catch_start e s1
      | None \<Rightarrow>
      (case input_context_fails env of
        Some e \<Rightarrow> catch_start e s1
      | None \<Rightarrow>
      (let s2 = s1\<lparr>audioContextRef := Some (new_context 16000 s1),
                    nextObject := nextObject s1 + 1\<rparr> in
       case output_context_fails env of
        Some e \<Rightarrow> catch_start e s2
      | None \<Rightarrow>
      (let s3 = s2\<lparr>outputAudioContextRef := Some (new_context 24000 s2),
                    nextObject := nextObject s2 + 1\<rparr> in
       case user_media env of
        Inl e \<Rightarrow> catch_start e s3
      | Inr n \<Rightarrow>
      (let s4 = s3\<lparr>streamRef :=
                      Some \<lparr>stream_id = nextObject s3,
                            stream_tracks = fresh_objects (nextObject s3 + 1) n\<rparr>,
                    nextObject := nextObject s3 + 1 + n,
                    currentInputTranscription := (currentInputTranscription s3)(nextCall s3 := []),
                    currentOutputTranscription := (currentOutputTranscription s3)(nextCall s3 := []),
                    nextCall := nextCall s3 + 1\<rparr> in
       case connect_fails env of
        Some e \<Rightarrow> catch_start e s4
      | None \<Rightarrow>
      (let s5 = (case on_open s4 of None \<Rightarrow> s4 | Some opened \<Rightarrow> opened)
       in s5\<lparr>sessionRef := Some (nextObject s5), nextObject := nextObject s5 + 1\<rparr>))))))"

subsection \<open>Events\<close>

text \<open>
  The close of a context completes: every ref that holds the context reads \<^verbatim>\<open>closed\<close>
  from then on.
\<close>

definition mark_closed :: "nat \<Rightarrow> audio_context option \<Rightarrow> audio_context option" where
  "mark_closed n ref =
     (case ref of
        None \<Rightarrow> None
      | Some ctx \<Rightarrow> if ctx_id ctx = n then Some (ctx\<lparr>ctx_state := Closed\<rparr>) else Some ctx)"

definition context_closed :: "nat \<Rightarrow> live_analyst \<Rightarrow> live_analyst" where
  "context_closed n s =
     s\<lparr>audioContextRef := mark_closed n (audioContextRef s),
       outputAudioContextRef := mark_closed n (outputAudioContextRef s)\<rparr>"

text \<open>
  The button (line 589) calls \<^verbatim>\<open>stopConversation\<close> when live and \<^verbatim>\<open>startConversation\<close>
  otherwise, and is disabled while connecting. A server message comes with the number
  of the call whose session delivers it and with the time the output context reports
  when it is handled. A rejected \<^verbatim>\<open>onmessage\<close> is observed by nobody: the next event is
  delivered to the state the call left.
\<close>

datatype event =
    Click start_env
  | ServerMessage nat real message
  | SourceEnded nat
  | AudioProcess "real list"
  | TransportError
  | TransportClose
  | ContextClosed nat
  | Unmount

fun step :: "event \<Rightarrow> live_analyst \<Rightarrow> live_analyst" where
  "step (Click env) s =
     (if isConnecting s then s else if isLive s then stopConversation s
      else startConversation env s)"
| "step (ServerMessage call currentTime m) s = snd (on_message call currentTime m s)"
| "step (SourceEnded n) s = source_ended n s"
| "step (AudioProcess inputData) s = on_audio_process inputData s"
| "step TransportError s = on_error s"
| "step TransportClose s = on_close s"
| "step (ContextClosed n) s = context_closed n s"
| "step Unmount s = stopConversation s"

fun run :: "live_analyst \<Rightarrow> event list \<Rightarrow> live_analyst" where
  "run s [] = s"
| "run s (e # es) = run (step e s) es"

subsection \<open>Predicates the statements below use\<close>

text \<open>
  Nothing is held: the four refs that \<^verbatim>\<open>stopConversation\<close> clears are empty, no source is
  active, the clock is 0 and both flags are down. Every state that \<^verbatim>\<open>stopConversation\<close>
  returns is of this kind.
\<close>

definition released :: "live_analyst \<Rightarrow> bool" where
  "released s =
     (sessionRef s = None \<and> processorRef s = None \<and> mediaStreamSourceRef s = None \<and>
      streamRef s = None \<and> sourcesRef s = [] \<and> nextStartTimeRef s = 0 \<and>
      \<not> isLive s \<and> \<not> isConnecting s)"


text \<open>The console line and the alert of the \<^verbatim>\<open>catch\<close> of \<^verbatim>\<open>startConversation\<close>.\<close>

definition report :: "thrown \<Rightarrow> action list" where
  "report e =
     [ConsoleError ''Failed to start conversation:'',
      Alert (''Could not start the conversation: '' @ error_text e)]"

text \<open>
  Two views of a state: what the session, the capture path and the transport hold, and
  what the transcript holds.
\<close>

definition session_part ::
  "live_analyst \<Rightarrow> bool \<times> bool \<times> nat option \<times> audio_context option \<times> audio_context option \<times>
     nat option \<times> media_stream option \<times> nat option" where
  "session_part s =
     (isConnecting s, isLive s, sessionRef s, audioContextRef s, outputAudioContextRef s,
      processorRef s, streamRef s, mediaStreamSourceRef s)"

definition transcript_part ::
  "live_analyst \<Rightarrow> transcript_turn list \<times> (nat \<Rightarrow> string) \<times> (nat \<Rightarrow> string)" where
  "transcript_part s =
     (transcriptions s, currentInputTranscription s, currentOutputTranscription s)"

text \<open>The text a message adds to a buffer before its turn-complete marker is read.\<close>

definition fragment :: "string option option \<Rightarrow> string" where
  "fragment t = (case t of None \<Rightarrow> [] | Some text \<Rightarrow> js_text text)"

subsection \<open>Example inputs\<close>

text \<open>
  A start in which every acquisition succeeds and the stream has one track, the live
  state it gives from the initial one, and some messages: \<open>AAA=\<close> is two zero bytes,
  one frame, whose duration is the number nearest to 1/24000 s; \<open>!\<close> is not base64.
\<close>

definition granted :: start_env where
  "granted =
     \<lparr>client_fails = None, input_context_fails = None, output_context_fails = None,
      user_media = Inr 1, connect_fails = None\<rparr>"

definition live0 :: live_analyst where
  "live0 = startConversation granted initial"

definition silent :: message where
  "silent =
     \<lparr>outputTranscription = None, inputTranscription = None, turnComplete = False,
      modelTurn = None, interrupted = False\<rparr>"

definition audio :: "string \<Rightarrow> message" where
  "audio base64 = silent\<lparr>modelTurn := Some (Some [Some base64])\<rparr>"

text \<open>
  The duration of the buffer that \<open>enqueue\<close> builds from a payload, when both decoding
  steps succeed.
\<close>

definition chunk_duration :: "string \<Rightarrow> real option" where
  "chunk_duration base64 =
     (case decode base64 of
        Inl e \<Rightarrow> None
      | Inr data \<Rightarrow>
          (case decodeAudioData data 24000 1 of
             Inl e \<Rightarrow> None
           | Inr audioBuffer \<Rightarrow> Some (duration audioBuffer)))"

text \<open>The live state after one chunk was scheduled at device time 0.\<close>

definition live1 :: live_analyst where
  "live1 = snd (on_message 0 0 (audio ''AAA='') live0)"


text \<open>A burst of \<open>n\<close> messages with one frame each, all handled at device time 0.\<close>

definition frames :: "nat \<Rightarrow> event list" where
  "frames n = replicate n (ServerMessage 0 0 (audio ''AAA=''))"

text \<open>Two messages that make one turn of the transcript.\<close>

definition heard :: message where
  "heard = silent\<lparr>inputTranscription := Some (Some ''hi'')\<rparr>"

definition answered :: message where
  "answered = silent\<lparr>outputTranscription := Some (Some ''hello''), turnComplete := True\<rparr>"

subsection \<open>The playback schedule\<close>

text \<open>The start time and the duration of every source started, read off the log in order.\<close>

fun scheduled :: "action list \<Rightarrow> (real \<times> real) list" where
  "scheduled [] = []"
| "scheduled (SourceStart n t d # acts) = (t, d) # scheduled acts"
| "scheduled (a # acts) = scheduled acts"

definition newly_scheduled :: "live_analyst \<Rightarrow> event list \<Rightarrow> (real \<times> real) list" where
  "newly_scheduled s events =
     drop (length (scheduled (effects s))) (scheduled (effects (run s events)))"

text \<open>The payload that the test of line 534 lets through: a string that is not empty.\<close>

definition payload :: "message \<Rightarrow> string option" where
  "payload m =
     (case base64Audio m of
        Inl e \<Rightarrow> None
      | Inr None \<Rightarrow> None
      | Inr (Some base64) \<Rightarrow> if base64 = [] then None else Some base64)"

text \<open>
  A message that enqueues a chunk of duration \<open>d\<close> and does not flush: it has a payload
  that decodes to a buffer of that duration, and no interruption marker.
\<close>

definition carries_chunk :: "message \<Rightarrow> real \<Rightarrow> bool" where
  "carries_chunk m d =
     (\<not> interrupted m \<and>
      (case payload m of None \<Rightarrow> False | Some base64 \<Rightarrow> chunk_duration base64 = Some d))"

text \<open>
  The chunks among some events, in the order of arrival: for every message whose payload
  decodes, the device time it is handled at and the duration of its buffer.
\<close>

definition chunk_of :: "event \<Rightarrow> (real \<times> real) option" where
  "chunk_of e =
     (case e of
        ServerMessage call t m \<Rightarrow>
          (case payload m of
             None \<Rightarrow> None
           | Some base64 \<Rightarrow>
               (case chunk_duration base64 of None \<Rightarrow> None | Some d \<Rightarrow> Some (t, d)))
      | _ \<Rightarrow> None)"

definition chunks :: "event list \<Rightarrow> (real \<times> real) list" where
  "chunks events = List.map_filter chunk_of events"

text \<open>
  Events with no flush among them: messages without the interruption marker (with or
  without audio, text only, or with a payload that fails to decode), sources that end,
  frames of the microphone, contexts that complete their close. A click, a transport
  error or close and the unmount stop or start a session. The time that comes with a
  message is a number, as every \<^verbatim>\<open>currentTime\<close> is.
\<close>

definition quiet :: "event \<Rightarrow> bool" where
  "quiet e =
     (case e of
        ServerMessage call t m \<Rightarrow> \<not> interrupted m
      | SourceEnded n \<Rightarrow> True
      | AudioProcess inputData \<Rightarrow> True
      | ContextClosed n \<Rightarrow> True
      | _ \<Rightarrow> False)"

definition timed :: "event \<Rightarrow> bool" where
  "timed e = (case e of ServerMessage call t m \<Rightarrow> binary64 t = t | _ \<Rightarrow> True)"

text \<open>The sum that repeated additions of line 542 give: every addition is rounded.\<close>

definition rounded_sum :: "real \<Rightarrow> real list \<Rightarrow> real" where
  "rounded_sum start ds = foldl (\<lambda>acc d. binary64 (acc + d)) start ds"

text \<open>The additions that end the buffers of a schedule are exact: nothing is rounded off.\<close>

definition exact_ends :: "(real \<times> real) list \<Rightarrow> bool" where
  "exact_ends sch = list_all (\<lambda>(start, d). binary64 (start + d) = start + d) sch"

text \<open>
  No underrun: once a first chunk of these events is scheduled, every message with a
  payload is handled no later than the clock stands, that is before the end of what is
  scheduled.
\<close>

definition punctual :: "live_analyst \<Rightarrow> event list \<Rightarrow> bool" where
  "punctual s events =
     list_all
       (\<lambda>k. case events ! k of
              ServerMessage call t m \<Rightarrow>
                payload m = None \<or> newly_scheduled s (take k events) = [] \<or>
                t \<le> nextStartTimeRef (run s (take k events))
            | _ \<Rightarrow> True)
       [0..<length events]"

section \<open>Verification\<close>

subsection \<open>Base64\<close>

lemma length_alphabet: "length alphabet = 64"
  by (simp add: alphabet_def)

lemma distinct_alphabet: "distinct alphabet"
  unfolding alphabet_def by code_simp

lemma position_nth: "distinct xs \<Longrightarrow> n < length xs \<Longrightarrow> position (xs ! n) xs = Some n"
proof (induction xs arbitrary: n)
  case Nil
  then show ?case by simp
next
  case (Cons y ys)
  show ?case
  proof (cases n)
    case 0
    then show ?thesis by simp
  next
    case (Suc k)
    with Cons.prems have "ys ! k \<noteq> y" and "k < length ys" and "distinct ys"
      by auto
    with Cons.IH [of k] Suc show ?thesis by simp
  qed
qed

lemma position_None: "position x xs = None \<longleftrightarrow> x \<notin> set xs"
  by (induction xs) auto

lemma dec6_enc6: "n < 64 \<Longrightarrow> dec6 (enc6 n) = Some n"
  unfolding dec6_def enc6_def
  by (rule position_nth) (simp_all add: distinct_alphabet length_alphabet)

lemma enc6_in_alphabet: "n < 64 \<Longrightarrow> enc6 n \<in> set alphabet"
  by (simp add: enc6_def length_alphabet)

lemma pad_not_in_alphabet: "CHR ''='' \<notin> set alphabet"
  by (simp add: alphabet_def)

lemma alphabet_no_whitespace: "list_all (\<lambda>c. \<not> ascii_whitespace c) alphabet"
  by (simp add: alphabet_def ascii_whitespace_def)

lemma whitespace_not_in_alphabet: "c \<in> set alphabet \<Longrightarrow> \<not> ascii_whitespace c"
proof -
  assume "c \<in> set alphabet"
  moreover have "\<forall>x \<in> set alphabet. \<not> ascii_whitespace x"
    using alphabet_no_whitespace by (simp only: list_all_iff)
  ultimately show ?thesis by blast
qed

lemma pack_bound: "r < k \<Longrightarrow> x < m \<Longrightarrow> r * m + x < k * (m::nat)"
proof -
  assume "r < k" and "x < m"
  then have "Suc r \<le> k" by simp
  then have "Suc r * m \<le> k * m" by (rule mult_le_mono1)
  with \<open>x < m\<close> show ?thesis by simp
qed

lemma pack_div: "x < m \<Longrightarrow> (r * m + x) div m = (r::nat)"
  by simp

lemma pack_mod: "x < m \<Longrightarrow> (r * m + x) mod m = (x::nat)"
  by simp

lemma byte_parts:
  assumes "(a::nat) < 256"
  shows "a div 4 < 64" "a div 16 < 16" "a div 64 < 4"
  using assms by (simp_all add: less_mult_imp_div_less)

lemma sextet_bounds:
  assumes "(a::nat) < 256" "b < 256" "c < 256"
  shows "a div 4 < 64" "a mod 4 * 16 + b div 16 < 64" "b mod 16 * 4 + c div 64 < 64" "c mod 64 < 64"
    "b mod 16 * 4 < 64" "a mod 4 * 16 < 64"
proof -
  show "a div 4 < 64" by (rule byte_parts [OF assms(1)])
  show "a mod 4 * 16 + b div 16 < 64"
    using pack_bound [of "a mod 4" 4 "b div 16" 16] byte_parts [OF assms(2)] by simp
  show "b mod 16 * 4 + c div 64 < 64"
    using pack_bound [of "b mod 16" 16 "c div 64" 4] byte_parts [OF assms(3)] by simp
  show "c mod 64 < 64" by simp
  show "b mod 16 * 4 < 64"
    using pack_bound [of "b mod 16" 16 0 4] by simp
  show "a mod 4 * 16 < 64"
    using pack_bound [of "a mod 4" 4 0 16] by simp
qed

lemma group_roundtrip:
  assumes "(b::nat) < 256" "c < 256"
  shows "a div 4 * 4 + (a mod 4 * 16 + b div 16) div 16 = a"
    and "(a mod 4 * 16 + b div 16) mod 16 * 16 + (b mod 16 * 4 + c div 64) div 4 = b"
    and "(b mod 16 * 4 + c div 64) mod 4 * 64 + c mod 64 = c"
    and "(a mod 4 * 16 + b div 16) mod 16 * 16 + (b mod 16 * 4) div 4 = b"
    and "a div 4 * 4 + (a mod 4 * 16) div 16 = a"
proof -
  have b16: "b div 16 < 16" and c64: "c div 64 < 4"
    using assms by (simp_all add: less_mult_imp_div_less)
  show "a div 4 * 4 + (a mod 4 * 16 + b div 16) div 16 = a"
    by (simp only: pack_div [OF b16] div_mult_mod_eq)
  show "(a mod 4 * 16 + b div 16) mod 16 * 16 + (b mod 16 * 4 + c div 64) div 4 = b"
    by (simp only: pack_mod [OF b16] pack_div [OF c64] div_mult_mod_eq)
  show "(b mod 16 * 4 + c div 64) mod 4 * 64 + c mod 64 = c"
    by (simp only: pack_mod [OF c64] div_mult_mod_eq)
  show "(a mod 4 * 16 + b div 16) mod 16 * 16 + (b mod 16 * 4) div 4 = b"
    using pack_div [of 0 4 "b mod 16"] by (simp only: pack_mod [OF b16]) simp
  show "a div 4 * 4 + (a mod 4 * 16) div 16 = a"
    using pack_div [of 0 16 "a mod 4"] by simp
qed


lemma sextets_bound:
  "list_all (\<lambda>b. b < 256) bs \<Longrightarrow> list_all (\<lambda>s. s < 64) (bytes_to_sextets bs)"
proof (induction bs rule: bytes_to_sextets.induct)
  case (1 a b c rest)
  then have "a < 256" "b < 256" "c < 256" and "list_all (\<lambda>b. b < 256) rest"
    by simp_all
  with 1 show ?case by (simp add: sextet_bounds)
next
  case (2 a b)
  then have "a < 256" "b < 256" by simp_all
  then show ?case by (simp add: sextet_bounds)
next
  case (3 a)
  then have "a < 256" by simp
  then show ?case by (simp add: sextet_bounds)
next
  case 4
  then show ?case by simp
qed

lemma those_dec6_enc6:
  "list_all (\<lambda>s. s < 64) ss \<Longrightarrow> those (map (dec6 \<circ> enc6) ss) = Some ss"
  by (induction ss) (simp_all add: dec6_enc6)

lemma sextets_roundtrip:
  "list_all (\<lambda>b. b < 256) bs \<Longrightarrow> sextets_to_bytes (bytes_to_sextets bs) = bs"
proof (induction bs rule: bytes_to_sextets.induct)
  case (1 a b c rest)
  then have "b < 256" "c < 256" and "list_all (\<lambda>b. b < 256) rest"
    by simp_all
  with 1 show ?case by (simp add: group_roundtrip)
next
  case (2 a b)
  then have "b < 256" by simp
  then show ?case by (simp add: group_roundtrip [where c = 0])
next
  case (3 a)
  show ?case by (simp add: group_roundtrip [where b = 0 and c = 0])
next
  case 4
  then show ?case by simp
qed

lemma length_sextets:
  "length (bytes_to_sextets bs) = 4 * (length bs div 3) + (if length bs mod 3 = 0 then 0 else length bs mod 3 + 1)"
  by (induction bs rule: bytes_to_sextets.induct) simp_all

lemma set_map_enc6: "list_all (\<lambda>s. s < 64) ss \<Longrightarrow> set (map enc6 ss) \<subseteq> set alphabet"
  by (induction ss) (simp_all add: enc6_in_alphabet)

lemma filter_whitespace_btoa:
  "filter (\<lambda>c. \<not> ascii_whitespace c) (btoa s) = btoa s"
proof -
  have bytes: "list_all (\<lambda>b. b < 256) (map of_char s :: nat list)"
    by (simp add: list_all_iff)
  have "\<not> ascii_whitespace c" if "c \<in> set (btoa s)" for c
  proof -
    from that have "c \<in> set alphabet \<or> c = CHR ''=''"
      using set_map_enc6 [OF sextets_bound [OF bytes]]
      by (auto simp: btoa_def)
    then show ?thesis
      by (auto simp: whitespace_not_in_alphabet) (simp add: ascii_whitespace_def)
  qed
  then show ?thesis by (simp add: filter_id_conv)
qed

lemma strip_padding_body:
  assumes "set body \<subseteq> set alphabet" and "(length body + n) mod 4 = 0" and "n \<le> 2"
  shows "strip_padding (body @ replicate n (CHR ''='')) = body"
proof -
  have last_body: "last body \<noteq> CHR ''=''" if "body \<noteq> []"
    using that assms(1) pad_not_in_alphabet last_in_set by fastforce
  consider "n = 0" | "n = 1" | "n = 2" using assms(3) by linarith
  then show ?thesis
  proof cases
    case 1
    then show ?thesis using last_body by (auto simp: strip_padding_def)
  next
    case 2
    then show ?thesis using last_body assms(2) by (auto simp: strip_padding_def)
  next
    case 3
    then have "replicate n (CHR ''='') = [CHR ''='', CHR ''='']"
      by (simp add: numeral_2_eq_2)
    then show ?thesis using assms(2) 3
      by (simp add: strip_padding_def butlast_append)
  qed
qed

lemma atob_btoa: "atob (btoa s) = Inr s"
proof -
  let ?bytes = "map of_char s :: nat list"
  let ?body = "map enc6 (bytes_to_sextets ?bytes)"
  let ?n = "(3 - length s mod 3) mod 3"
  have bytes: "list_all (\<lambda>b. b < 256) ?bytes"
    by (simp add: list_all_iff)
  have sext: "list_all (\<lambda>s. s < 64) (bytes_to_sextets ?bytes)"
    by (rule sextets_bound [OF bytes])
  have pad: "(length ?body + ?n) mod 4 = 0 \<and> ?n \<le> 2 \<and> length ?body mod 4 \<noteq> 1"
  proof -
    define q where "q = length s div 3"
    have m: "(4 * q + k) mod 4 = k mod 4" for k :: nat
      by simp
    consider "length s mod 3 = 0" | "length s mod 3 = 1" | "length s mod 3 = 2"
      by linarith
    then show ?thesis
    proof cases
      case 1
      then have "length ?body = 4 * q + 0" and "?n = 0"
        by (simp_all add: length_sextets q_def)
      then show ?thesis using m [of 0] by simp
    next
      case 2
      then have "length ?body = 4 * q + 2" and "?n = 2"
        by (simp_all add: length_sextets q_def)
      then show ?thesis using m [of 2] m [of 4] by simp
    next
      case 3
      then have "length ?body = 4 * q + 3" and "?n = 1"
        by (simp_all add: length_sextets q_def)
      then show ?thesis using m [of 3] m [of 4] by simp
    qed
  qed
  have strip: "strip_padding (btoa s) = ?body"
    unfolding btoa_def
    using pad by (intro strip_padding_body [OF set_map_enc6 [OF sext]]) simp_all
  have "map char_of (sextets_to_bytes (bytes_to_sextets ?bytes)) = s"
    by (simp add: sextets_roundtrip [OF bytes] comp_def)
  then show ?thesis
    using pad by (simp add: atob_def filter_whitespace_btoa strip those_dec6_enc6 [OF sext])
qed

lemma decode_encode: "decode (encode bs) = Inr bs"
proof -
  have "map (\<lambda>c. word_of_nat (of_char c)) (map (\<lambda>b. char_of (unat b)) bs) = bs" for bs :: "u8 list"
  proof (induction bs)
    case Nil
    then show ?case by simp
  next
    case (Cons b bs)
    have "unat b < 256" using unsigned_less [of b] by simp
    then have "(word_of_nat (unat b mod 256) :: u8) = b" by simp
    with Cons show ?case by simp
  qed
  then show ?thesis by (simp add: decode_def encode_def atob_btoa)
qed


subsection \<open>Samples\<close>

lemma sint_float_to_int16:
  "sint (float_to_int16 x) = (js_trunc (x * 32768) + 32768) mod 65536 - 32768"
  by (simp add: float_to_int16_def sint_sbintrunc' signed_take_bit_eq_take_bit_shift take_bit_eq_mod)

lemma js_trunc_error: "\<bar>real_of_int (js_trunc y) - y\<bar> < 1"
  unfolding js_trunc_def by (cases "0 \<le> y") (simp_all, linarith+)

lemma js_trunc_range:
  assumes "- 32768 \<le> y" and "y < 32768"
  shows "- 32768 \<le> js_trunc y \<and> js_trunc y < 32768"
  using assms unfolding js_trunc_def by (simp add: floor_less_iff le_floor_iff ceiling_less_iff le_ceiling_iff)

lemma pcm_roundtrip:
  assumes "- 1 \<le> x" and "x < 1"
  shows "\<bar>int16_to_float (float_to_int16 x) - x\<bar> < 1 / 32768"
proof -
  let ?y = "x * 32768"
  let ?t = "js_trunc ?y"
  have range: "- 32768 \<le> ?t \<and> ?t < 32768"
    using assms by (intro js_trunc_range) simp_all
  then have "(?t + 32768) mod 65536 = ?t + 32768"
    by simp
  then have "sint (float_to_int16 x) = ?t"
    by (simp add: sint_float_to_int16)
  then have "int16_to_float (float_to_int16 x) = real_of_int ?t / 32768"
    by (simp add: int16_to_float_def)
  then have "int16_to_float (float_to_int16 x) - x = (real_of_int ?t - ?y) / 32768"
    by (simp add: diff_divide_distrib)
  then have "\<bar>int16_to_float (float_to_int16 x) - x\<bar> = \<bar>real_of_int ?t - ?y\<bar> / 32768"
    by (simp only: abs_divide)
  also have "\<dots> < 1 / 32768"
    using js_trunc_error [of ?y] by (intro divide_strict_right_mono) simp_all
  finally show ?thesis .
qed

lemma pcm_one: "int16_to_float (float_to_int16 1) = - 1"
  by (simp add: int16_to_float_def sint_float_to_int16 js_trunc_def)

lemma pcm_three_halves: "sint (float_to_int16 (3 / 2)) = - 16384"
  by (simp add: sint_float_to_int16 js_trunc_def)

lemma pcm_neg: "sint (float_to_int16 (- 3 / 2)) = 16384"
  by (simp add: sint_float_to_int16 js_trunc_def)

lemma overload_positive:
  assumes "1 \<le> x" and "x < 2"
  shows "sint (float_to_int16 x) = js_trunc (x * 32768) - 65536"
proof -
  have "32768 \<le> js_trunc (x * 32768)" "js_trunc (x * 32768) < 65536"
    using assms unfolding js_trunc_def by (simp_all add: le_floor_iff floor_less_iff)
  then have "(js_trunc (x * 32768) + 32768) mod 65536 = js_trunc (x * 32768) + 32768 - 65536"
    by (simp add: mod_pos_geq)
  then show ?thesis by (simp add: sint_float_to_int16)
qed


subsection \<open>Rounding to binary64\<close>

lemma rhe_of_int: "round_half_even (of_int n) = n"
  by (simp add: round_half_even_def)

lemma rhe_below: "x - of_int \<lfloor>x\<rfloor> < 1 / 2 \<Longrightarrow> round_half_even x = \<lfloor>x\<rfloor>"
  by (simp add: round_half_even_def Let_def)

lemma rhe_above: "1 / 2 < x - of_int \<lfloor>x\<rfloor> \<Longrightarrow> round_half_even x = \<lfloor>x\<rfloor> + 1"
  by (simp add: round_half_even_def Let_def)

lemma rhe_range: "\<lfloor>x\<rfloor> \<le> round_half_even x \<and> round_half_even x \<le> \<lfloor>x\<rfloor> + 1"
  by (simp add: round_half_even_def Let_def)

lemma rhe_mono:
  assumes "x \<le> y"
  shows "round_half_even x \<le> round_half_even y"
proof -
  from assms have fl: "\<lfloor>x\<rfloor> \<le> \<lfloor>y\<rfloor>" by (rule floor_mono)
  show ?thesis
  proof (cases "\<lfloor>x\<rfloor> = \<lfloor>y\<rfloor>")
    case False
    with fl have "\<lfloor>x\<rfloor> + 1 \<le> \<lfloor>y\<rfloor>" by simp
    with rhe_range [of x] rhe_range [of y] show ?thesis by linarith
  next
    case True
    show ?thesis
    proof (cases "x = y")
      case True
      then show ?thesis by simp
    next
      case False
      with assms have lt: "x - of_int \<lfloor>x\<rfloor> < y - of_int \<lfloor>y\<rfloor>"
        using True by simp
      show ?thesis
      proof (cases "x - of_int \<lfloor>x\<rfloor> < 1 / 2")
        case True
        then have "round_half_even x = \<lfloor>x\<rfloor>" by (rule rhe_below)
        with rhe_range [of y] \<open>\<lfloor>x\<rfloor> = \<lfloor>y\<rfloor>\<close> show ?thesis by simp
      next
        case False
        with lt have "1 / 2 < y - of_int \<lfloor>y\<rfloor>" by linarith
        then have "round_half_even y = \<lfloor>y\<rfloor> + 1" by (rule rhe_above)
        with rhe_range [of x] \<open>\<lfloor>x\<rfloor> = \<lfloor>y\<rfloor>\<close> show ?thesis by simp
      qed
    qed
  qed
qed

lemma rhe_lower: "of_int n \<le> x \<Longrightarrow> n \<le> round_half_even x"
  using rhe_mono [of "of_int n" x] by (simp add: rhe_of_int)

lemma rhe_upper: "x \<le> of_int n \<Longrightarrow> round_half_even x \<le> n"
  using rhe_mono [of x "of_int n"] by (simp add: rhe_of_int)

lemma powi_neg: "0 \<le> k \<Longrightarrow> (2::real) powi (- k) = 1 / 2 ^ nat k"
  by (simp add: power_int_minus_divide power_int_nonneg_exp)

lemma exponent_bounds:
  assumes "0 < x"
  shows "2 powi exponent x \<le> x" and "x < 2 powi (exponent x + 1)"
proof -
  have "2 powi exponent x \<le> x \<and> x < 2 powi (exponent x + 1)"
  proof (cases "1 \<le> x")
    case True
    then have pos: "0 < \<lfloor>x\<rfloor>" by simp
    let ?b = "bitlen \<lfloor>x\<rfloor>"
    from pos have b1: "1 \<le> ?b" by (simp add: bitlen_alt_def)
    have e: "exponent x = ?b - 1" using True by (simp add: exponent_def)
    from bitlen_bounds [OF pos] have lo: "2 ^ nat (?b - 1) \<le> \<lfloor>x\<rfloor>" and hi: "\<lfloor>x\<rfloor> < 2 ^ nat ?b"
      by simp_all
    from lo have "(2::real) ^ nat (?b - 1) \<le> of_int \<lfloor>x\<rfloor>"
      by (metis of_int_le_iff of_int_numeral of_int_power)
    also have "\<dots> \<le> x" by simp
    finally have l: "2 powi (?b - 1) \<le> x"
      using b1 by (simp add: power_int_def)
    from hi have "\<lfloor>x\<rfloor> + 1 \<le> 2 ^ nat ?b" by simp
    then have "of_int (\<lfloor>x\<rfloor> + 1) \<le> (2::real) ^ nat ?b"
      by (metis of_int_le_iff of_int_numeral of_int_power)
    moreover have "x < of_int (\<lfloor>x\<rfloor> + 1)" by linarith
    ultimately have "x < (2::real) ^ nat ?b" by linarith
    then have h: "x < 2 powi ?b"
      using b1 by (simp add: power_int_def)
    from l h show ?thesis by (simp add: e)
  next
    case False
    with assms have y1: "1 < 1 / x" by simp
    let ?n = "\<lceil>1 / x\<rceil> - 1"
    from y1 have pos: "0 < ?n" by linarith
    let ?b = "bitlen ?n"
    from pos have b1: "1 \<le> ?b" by (simp add: bitlen_alt_def)
    have e: "exponent x = - ?b" using False by (simp add: exponent_def)
    from bitlen_bounds [OF pos] have lo: "2 ^ nat (?b - 1) \<le> ?n" and hi: "?n < 2 ^ nat ?b"
      by simp_all
    from hi have "\<lceil>1 / x\<rceil> \<le> 2 ^ nat ?b" by simp
    then have "of_int \<lceil>1 / x\<rceil> \<le> (2::real) ^ nat ?b"
      by (metis of_int_le_iff of_int_numeral of_int_power)
    moreover have "1 / x \<le> of_int \<lceil>1 / x\<rceil>" by simp
    ultimately have "1 / x \<le> (2::real) ^ nat ?b" by linarith
    then have "1 \<le> 2 ^ nat ?b * x"
      using assms by (simp add: field_simps)
    then have "1 / 2 ^ nat ?b \<le> x"
      by (simp add: field_simps)
    moreover have "(2::real) powi (- ?b) = 1 / 2 ^ nat ?b"
      using b1 by (intro powi_neg) simp
    ultimately have l: "2 powi (- ?b) \<le> x" by simp
    from lo have "(2::real) ^ nat (?b - 1) \<le> of_int ?n"
      by (metis of_int_le_iff of_int_numeral of_int_power)
    moreover have "of_int ?n < 1 / x" by linarith
    ultimately have "(2::real) ^ nat (?b - 1) < 1 / x" by linarith
    then have "x * 2 ^ nat (?b - 1) < 1"
      using assms by (simp add: field_simps)
    then have "x < 1 / 2 ^ nat (?b - 1)"
      by (simp add: field_simps)
    moreover have "(2::real) powi (- (?b - 1)) = 1 / 2 ^ nat (?b - 1)"
      using b1 by (intro powi_neg) simp
    moreover have "- ?b + 1 = - (?b - 1)" by simp
    ultimately have h: "x < 2 powi (- ?b + 1)" by (simp only:)
    from l h show ?thesis by (simp add: e)
  qed
  then show "2 powi exponent x \<le> x" and "x < 2 powi (exponent x + 1)" by simp_all
qed

lemma powi_less_imp: "(2::real) powi a < 2 powi b \<Longrightarrow> a < b"
proof (rule ccontr)
  assume lt: "(2::real) powi a < 2 powi b" and "\<not> a < b"
  then have "b \<le> a" by simp
  then have "(2::real) powi b \<le> 2 powi a" by (rule power_int_increasing) simp
  with lt show False by simp
qed

lemma exponent_unique:
  assumes "0 < x" and "2 powi k \<le> x" and "x < 2 powi (k + 1)"
  shows "exponent x = k"
proof -
  from exponent_bounds(1) [OF assms(1)] assms(3) have "(2::real) powi exponent x < 2 powi (k + 1)"
    by linarith
  then have "exponent x < k + 1" by (rule powi_less_imp)
  moreover from exponent_bounds(2) [OF assms(1)] assms(2) have "(2::real) powi k < 2 powi (exponent x + 1)"
    by linarith
  then have "k < exponent x + 1" by (rule powi_less_imp)
  ultimately show ?thesis by simp
qed

lemma exponent_mono:
  assumes "0 < x" and "x \<le> y"
  shows "exponent x \<le> exponent y"
proof -
  from assms have y: "0 < y" by simp
  from exponent_bounds(1) [OF assms(1)] exponent_bounds(2) [OF y] assms(2)
  have "(2::real) powi exponent x < 2 powi (exponent y + 1)" by linarith
  then have "exponent x < exponent y + 1" by (rule powi_less_imp)
  then show ?thesis by simp
qed

lemma ulp_pos: "0 < ulp x"
  by (simp add: ulp_def)

lemma ulp_scale:
  "ulp x * 2 ^ 53 = 2 powi (max (exponent x) (- 1022) + 1)"
  "ulp x * 2 ^ 52 = 2 powi (max (exponent x) (- 1022))"
proof -
  let ?E = "max (exponent x) (- 1022)"
  have a: "(2::real) powi (?E - 52 + 53) = 2 powi (?E - 52) * 2 powi 53"
    by (rule power_int_add) simp
  have b: "?E - 52 + 53 = ?E + 1" by linarith
  have c: "(2::real) powi 53 = 2 ^ 53" by (rule power_int_numeral)
  from a show "ulp x * 2 ^ 53 = 2 powi (?E + 1)"
    unfolding ulp_def b c by (rule sym)
  have a: "(2::real) powi (?E - 52 + 52) = 2 powi (?E - 52) * 2 powi 52"
    by (rule power_int_add) simp
  have b: "?E - 52 + 52 = ?E" by linarith
  have c: "(2::real) powi 52 = 2 ^ 52" by (rule power_int_numeral)
  from a show "ulp x * 2 ^ 52 = 2 powi ?E"
    unfolding ulp_def b c by (rule sym)
qed

lemma round_magnitude_upper:
  assumes "0 < x"
  shows "round_magnitude x \<le> 2 powi (max (exponent x) (- 1022) + 1)"
proof -
  let ?E = "max (exponent x) (- 1022)"
  have "(2::real) powi (exponent x + 1) \<le> 2 powi (?E + 1)"
    by (rule power_int_increasing) simp_all
  with exponent_bounds(2) [OF assms] have "x \<le> 2 powi (?E + 1)"
    by linarith
  then have "x \<le> ulp x * 2 ^ 53"
    by (simp only: ulp_scale)
  then have "x / ulp x \<le> 2 ^ 53"
    using ulp_pos [of x] by (simp add: field_simps)
  then have "x / ulp x \<le> of_int (2 ^ 53)" by simp
  then have "round_half_even (x / ulp x) \<le> 2 ^ 53" by (rule rhe_upper)
  then have "real_of_int (round_half_even (x / ulp x)) \<le> 2 ^ 53"
    by (metis of_int_le_iff of_int_numeral of_int_power)
  then have "ulp x * real_of_int (round_half_even (x / ulp x)) \<le> ulp x * 2 ^ 53"
    using ulp_pos [of x] by (simp only: mult_le_cancel_left_pos)
  then show ?thesis
    by (simp only: round_magnitude_def ulp_scale)
qed

lemma round_magnitude_lower:
  assumes "0 < x" and "- 1022 \<le> exponent x"
  shows "2 powi exponent x \<le> round_magnitude x"
proof -
  from assms(2) have E: "max (exponent x) (- 1022) = exponent x" by simp
  from exponent_bounds(1) [OF assms(1)] have "ulp x * 2 ^ 52 \<le> x"
    by (simp only: ulp_scale E)
  then have "2 ^ 52 \<le> x / ulp x"
    using ulp_pos [of x] by (simp add: field_simps)
  then have "of_int (2 ^ 52) \<le> x / ulp x" by simp
  then have "2 ^ 52 \<le> round_half_even (x / ulp x)" by (rule rhe_lower)
  then have "2 ^ 52 \<le> real_of_int (round_half_even (x / ulp x))"
    by (metis of_int_le_iff of_int_numeral of_int_power)
  then have "ulp x * 2 ^ 52 \<le> ulp x * real_of_int (round_half_even (x / ulp x))"
    using ulp_pos [of x] by (simp only: mult_le_cancel_left_pos)
  then show ?thesis
    by (simp only: round_magnitude_def ulp_scale E)
qed

lemma round_magnitude_nonneg:
  assumes "0 < x"
  shows "0 \<le> round_magnitude x"
proof -
  have "of_int 0 \<le> x / ulp x"
    using assms ulp_pos [of x] by simp
  then have "0 \<le> round_half_even (x / ulp x)" by (rule rhe_lower)
  then show ?thesis
    using ulp_pos [of x] by (simp add: round_magnitude_def)
qed

lemma round_magnitude_mono:
  assumes "0 < x" and "x \<le> y"
  shows "round_magnitude x \<le> round_magnitude y"
proof -
  from assms have y: "0 < y" by simp
  let ?Ex = "max (exponent x) (- 1022)" and ?Ey = "max (exponent y) (- 1022)"
  from exponent_mono [OF assms] have le: "?Ex \<le> ?Ey" by simp
  show ?thesis
  proof (cases "?Ex = ?Ey")
    case True
    then have u: "ulp x = ulp y" by (simp add: ulp_def)
    have "x / ulp y \<le> y / ulp y"
      using assms(2) ulp_pos [of y] by (simp add: divide_right_mono)
    then have "round_half_even (x / ulp y) \<le> round_half_even (y / ulp y)"
      by (rule rhe_mono)
    then have "real_of_int (round_half_even (x / ulp y)) \<le> real_of_int (round_half_even (y / ulp y))"
      by simp
    then have "ulp y * real_of_int (round_half_even (x / ulp y))
        \<le> ulp y * real_of_int (round_half_even (y / ulp y))"
      using ulp_pos [of y] by (simp only: mult_le_cancel_left_pos)
    then show ?thesis
      by (simp add: round_magnitude_def u)
  next
    case False
    with le have lt: "?Ex + 1 \<le> ?Ey" by simp
    then have normal: "- 1022 \<le> exponent y" and Ey: "?Ey = exponent y" by simp_all
    have "round_magnitude x \<le> 2 powi (?Ex + 1)"
      by (rule round_magnitude_upper [OF assms(1)])
    also have "(2::real) powi (?Ex + 1) \<le> 2 powi ?Ey"
      using lt by (rule power_int_increasing) simp
    also have "\<dots> \<le> round_magnitude y"
      unfolding Ey by (rule round_magnitude_lower [OF y normal])
    finally show ?thesis .
  qed
qed

lemma round_magnitude_fixed:
  assumes "0 < y" and "y = ulp y * of_int n"
  shows "round_magnitude y = y"
proof -
  have "y / ulp y = of_int n"
    using assms(2) ulp_pos [of y] by (simp add: field_simps)
  then have "round_half_even (y / ulp y) = n"
    by (simp only: rhe_of_int)
  then show ?thesis
    using assms(2) by (simp add: round_magnitude_def)
qed

lemma round_magnitude_idem:
  assumes "0 < x" and "round_magnitude x \<noteq> 0"
  shows "round_magnitude (round_magnitude x) = round_magnitude x"
proof -
  let ?E = "max (exponent x) (- 1022)"
  let ?n = "round_half_even (x / ulp x)"
  let ?y = "round_magnitude x"
  have y_def: "?y = ulp x * of_int ?n" by (simp add: round_magnitude_def)
  from round_magnitude_nonneg [OF assms(1)] assms(2) have y: "0 < ?y" by simp
  have upper: "?y \<le> 2 powi (?E + 1)" by (rule round_magnitude_upper [OF assms(1)])
  show ?thesis
  proof (cases "?y = 2 powi (?E + 1)")
    case True
    have "(2::real) powi (?E + 1) < 2 powi (?E + 1 + 1)"
      by (rule power_int_strict_increasing) simp_all
    with True have e: "exponent ?y = ?E + 1"
      by (intro exponent_unique [OF y]) simp_all
    have E': "max (exponent ?y) (- 1022) = ?E + 1"
      unfolding e by simp
    have "ulp ?y * 2 ^ 52 = ?y"
      using ulp_scale(2) [of ?y] unfolding E' True [symmetric] .
    then have "?y = ulp ?y * of_int (2 ^ 52)" by simp
    then show ?thesis by (rule round_magnitude_fixed [OF y])
  next
    case False
    with upper have lt: "?y < 2 powi (?E + 1)" by simp
    from exponent_bounds(1) [OF y] lt have "(2::real) powi exponent ?y < 2 powi (?E + 1)"
      by linarith
    then have le: "exponent ?y \<le> ?E" using powi_less_imp by fastforce
    have E': "max (exponent ?y) (- 1022) = ?E"
    proof (cases "- 1022 \<le> exponent x")
      case True
      then have E: "?E = exponent x" by simp
      from round_magnitude_lower [OF assms(1) True] have "2 powi ?E \<le> ?y"
        by (simp only: E)
      with lt have "exponent ?y = ?E" by (intro exponent_unique [OF y])
      then show ?thesis by simp
    next
      case False
      then have "?E = - 1022" by simp
      with le show ?thesis by simp
    qed
    then have "ulp ?y = ulp x" by (simp add: ulp_def)
    with y_def have "?y = ulp ?y * of_int ?n" by simp
    then show ?thesis by (rule round_magnitude_fixed [OF y])
  qed
qed

lemma binary64_zero: "binary64 0 = 0"
  by (simp add: binary64_def)

lemma binary64_positive: "0 < x \<Longrightarrow> binary64 x = round_magnitude x"
  by (simp add: binary64_def)

lemma binary64_negative: "x < 0 \<Longrightarrow> binary64 x = - round_magnitude (- x)"
  by (simp add: binary64_def)

lemma binary64_nonneg: "0 \<le> x \<Longrightarrow> 0 \<le> binary64 x"
  by (cases "x = 0") (simp_all add: binary64_zero binary64_positive round_magnitude_nonneg)

lemma binary64_nonpos: "x \<le> 0 \<Longrightarrow> binary64 x \<le> 0"
  by (cases "x = 0") (simp_all add: binary64_zero binary64_negative round_magnitude_nonneg)

lemma binary64_mono:
  assumes "x \<le> y"
  shows "binary64 x \<le> binary64 y"
proof -
  consider "0 < x" | "y < 0" | "x \<le> 0" "0 \<le> y" by linarith
  then show ?thesis
  proof cases
    case 1
    with assms have "0 < y" by simp
    with 1 assms show ?thesis
      by (simp add: binary64_positive round_magnitude_mono)
  next
    case 2
    with assms have "x < 0" by simp
    moreover from 2 assms have "round_magnitude (- y) \<le> round_magnitude (- x)"
      by (intro round_magnitude_mono) simp_all
    ultimately show ?thesis
      using 2 by (simp add: binary64_negative)
  next
    case 3
    from binary64_nonpos [OF 3(1)] binary64_nonneg [OF 3(2)] show ?thesis by simp
  qed
qed

lemma binary64_idem: "binary64 (binary64 x) = binary64 x"
proof -
  consider "x = 0" | "0 < x" | "x < 0" by linarith
  then show ?thesis
  proof cases
    case 1
    then show ?thesis by (simp add: binary64_zero)
  next
    case 2
    show ?thesis
    proof (cases "round_magnitude x = 0")
      case True
      with 2 show ?thesis by (simp add: binary64_positive binary64_zero)
    next
      case False
      with round_magnitude_nonneg [OF 2] have "0 < round_magnitude x" by simp
      with 2 False show ?thesis
        by (simp add: binary64_positive round_magnitude_idem)
    qed
  next
    case 3
    then have pos: "0 < - x" by simp
    show ?thesis
    proof (cases "round_magnitude (- x) = 0")
      case True
      with 3 show ?thesis by (simp add: binary64_negative binary64_zero)
    next
      case False
      with round_magnitude_nonneg [OF pos] have "- round_magnitude (- x) < 0" by simp
      with 3 False pos show ?thesis
        by (simp add: binary64_negative round_magnitude_idem)
    qed
  qed
qed

lemma binary64_of_nat:
  assumes "n < 2 ^ 53"
  shows "binary64 (of_nat n) = of_nat n"
proof (cases "n = 0")
  case True
  then show ?thesis by (simp add: binary64_zero)
next
  case False
  let ?x = "real n"
  from False have x: "0 < ?x" and x1: "1 \<le> ?x" by simp_all
  let ?e = "exponent ?x"
  from exponent_bounds(2) [OF x] x1 have "(2::real) powi 0 < 2 powi (?e + 1)" by simp
  then have "0 < ?e + 1" by (rule powi_less_imp)
  then have e0: "0 \<le> ?e" by simp
  from assms have "?x < 2 ^ 53"
    by (metis of_nat_less_iff of_nat_numeral of_nat_power)
  then have "?x < 2 powi 53" by simp
  with exponent_bounds(1) [OF x] have "(2::real) powi ?e < 2 powi 53" by linarith
  then have e53: "?e < 53" by (rule powi_less_imp)
  from e0 have E: "max ?e (- 1022) = ?e" by simp
  let ?k = "nat (52 - ?e)"
  have "(2::real) powi (?e - 52 + (52 - ?e)) = 2 powi (?e - 52) * 2 powi (52 - ?e)"
    by (rule power_int_add) simp
  moreover have "(2::real) powi (52 - ?e) = 2 ^ ?k"
    using e53 by (simp add: power_int_nonneg_exp)
  moreover have "?e - 52 + (52 - ?e) = 0" by simp
  ultimately have u: "ulp ?x * 2 ^ ?k = 1"
    by (simp add: ulp_def E)
  have "?x = ulp ?x * 2 ^ ?k * ?x" by (simp only: u mult_1)
  also have "\<dots> = ulp ?x * of_int (int (2 ^ ?k * n))" by simp
  finally have "?x = ulp ?x * of_int (int (2 ^ ?k * n))" .
  then have "round_magnitude ?x = ?x" by (rule round_magnitude_fixed [OF x])
  with x show ?thesis by (simp add: binary64_positive)
qed

lemma binary64_numeral: "numeral w < (2::nat) ^ 53 \<Longrightarrow> binary64 (numeral w) = numeral w"
  using binary64_of_nat [of "numeral w"] by simp

lemma binary64_one: "binary64 1 = 1"
  using binary64_of_nat [of 1] by simp


subsection \<open>stopConversation\<close>


lemma perform_perform: "perform bs (perform as s) = perform (as @ bs) s"
  by (simp add: perform_def)

lemma stopConversation_eq:
  "stopConversation s =
     s\<lparr>isConnecting := False, isLive := False, sessionRef := None, processorRef := None,
       streamRef := None, mediaStreamSourceRef := None, nextStartTimeRef := 0, sourcesRef := [],
       effects := effects s
         @ (case sessionRef s of None \<Rightarrow> [] | Some n \<Rightarrow> [SessionClose n])
         @ (case processorRef s of None \<Rightarrow> [] | Some n \<Rightarrow> [Disconnect n])
         @ (case mediaStreamSourceRef s of None \<Rightarrow> [] | Some n \<Rightarrow> [Disconnect n])
         @ (case streamRef s of None \<Rightarrow> [] | Some stream \<Rightarrow> map TrackStop (stream_tracks stream))
         @ close_context (audioContextRef s)
         @ close_context (outputAudioContextRef s)
         @ map (\<lambda>source. SourceStop (source_id source)) (sourcesRef s)\<rparr>"
proof (cases "sessionRef s")
  case s: None
  show ?thesis
  proof (cases "processorRef s")
    case p: None
    show ?thesis
      by (cases "mediaStreamSourceRef s"; cases "streamRef s")
        (simp_all add: stopConversation_def release_session_def release_processor_def
          release_media_source_def release_stream_def flush_def perform_def s p)
  next
    case p: (Some n)
    show ?thesis
      by (cases "mediaStreamSourceRef s"; cases "streamRef s")
        (simp_all add: stopConversation_def release_session_def release_processor_def
          release_media_source_def release_stream_def flush_def perform_def s p)
  qed
next
  case s: (Some k)
  show ?thesis
  proof (cases "processorRef s")
    case p: None
    show ?thesis
      by (cases "mediaStreamSourceRef s"; cases "streamRef s")
        (simp_all add: stopConversation_def release_session_def release_processor_def
          release_media_source_def release_stream_def flush_def perform_def s p)
  next
    case p: (Some n)
    show ?thesis
      by (cases "mediaStreamSourceRef s"; cases "streamRef s")
        (simp_all add: stopConversation_def release_session_def release_processor_def
          release_media_source_def release_stream_def flush_def perform_def s p)
  qed
qed

lemma released_stopConversation: "released (stopConversation s)"
  by (simp add: stopConversation_eq released_def)




subsection \<open>Claims about the codec\<close>

lemma mod_wrap_negative:
  assumes "- m \<le> k" and "k < 0"
  shows "k mod m = k + (m :: int)"
proof -
  have "(k + m) mod m = k + m"
    using assms by (intro mod_pos_pos_trivial) simp_all
  moreover have "(k + m) mod m = k mod m"
    by (rule mod_add_self2)
  ultimately show ?thesis by simp
qed

lemma overload_negative:
  assumes "- 2 < x" and "x \<le> - 1 - 1 / 32768"
  shows "sint (float_to_int16 x) = js_trunc (x * 32768) + 65536"
proof -
  have neg: "\<not> 0 \<le> x * 32768" using assms by simp
  have "- 65536 < js_trunc (x * 32768)" "js_trunc (x * 32768) \<le> - 32769"
    using assms neg unfolding js_trunc_def
    by (simp_all add: less_ceiling_iff ceiling_le_iff)
  then have "(js_trunc (x * 32768) + 32768) mod 65536 = js_trunc (x * 32768) + 32768 + 65536"
    by (intro mod_wrap_negative) simp_all
  then show ?thesis by (simp add: sint_float_to_int16)
qed

text \<open>
  C6, as amended. Decoding the base64 encoding of a byte sequence returns that sequence;
  a sample of the half-open interval from -1 (included) to 1 (excluded) comes back from
  its 16-bit form less than one quantisation step 1/32768 away.
\<close>

theorem codec_round_trips:
  "decode (encode bytes) = Inr bytes \<and>
   (- 1 \<le> x \<and> x < 1 \<longrightarrow> \<bar>int16_to_float (float_to_int16 x) - x\<bar> < 1 / 32768)"
  using decode_encode pcm_roundtrip by blast

theorem codec_round_trips_witness:
  "decode (encode [72, 105, 33, 255]) = Inr [72, 105, 33, 255] \<and>
   \<bar>int16_to_float (float_to_int16 (1 / 3)) - 1 / 3\<bar> < 1 / 32768"
  using codec_round_trips [of "[72, 105, 33, 255]" "1 / 3"] by simp

text \<open>
  The sample 1 lies in the closed interval of the claim and comes back as -1, two whole
  units away.
\<close>

theorem codec_round_trip_fails_at_one:
  "- 1 \<le> (1 :: real) \<and> (1 :: real) \<le> 1 \<and>
   int16_to_float (float_to_int16 1) = - 1 \<and>
   \<not> \<bar>int16_to_float (float_to_int16 1) - 1\<bar> \<le> 1 / 32768"
  by (simp add: pcm_one)

text \<open>
  C7. The stored sample is the truncated product reduced modulo 65536 into the 16-bit
  range, for every input; past the range it is not the truncated product: from 1 up to 2
  it is that product less 65536, a negative sample, and from -2 up to one step below -1
  it is that product plus 65536, a positive one.
\<close>

theorem float_to_int16_wraps:
  "sint (float_to_int16 x) = (js_trunc (x * 32768) + 32768) mod 65536 - 32768 \<and>
   (1 \<le> x \<and> x < 2 \<longrightarrow>
      sint (float_to_int16 x) = js_trunc (x * 32768) - 65536 \<and> sint (float_to_int16 x) < 0) \<and>
   (- 2 < x \<and> x \<le> - 1 - 1 / 32768 \<longrightarrow>
      sint (float_to_int16 x) = js_trunc (x * 32768) + 65536 \<and> 0 < sint (float_to_int16 x))"
proof (intro conjI impI)
  show "sint (float_to_int16 x) = (js_trunc (x * 32768) + 32768) mod 65536 - 32768"
    by (rule sint_float_to_int16)
next
  assume a: "1 \<le> x \<and> x < 2"
  then show eq: "sint (float_to_int16 x) = js_trunc (x * 32768) - 65536"
    by (simp add: overload_positive)
  have "js_trunc (x * 32768) < 65536"
    using a unfolding js_trunc_def by (simp add: floor_less_iff)
  with eq show "sint (float_to_int16 x) < 0" by simp
next
  assume a: "- 2 < x \<and> x \<le> - 1 - 1 / 32768"
  then show eq: "sint (float_to_int16 x) = js_trunc (x * 32768) + 65536"
    by (simp add: overload_negative)
  have "\<not> 0 \<le> x * 32768" using a by simp
  then have "- 65536 < js_trunc (x * 32768)"
    using a unfolding js_trunc_def by (simp add: less_ceiling_iff)
  with eq show "0 < sint (float_to_int16 x)" by simp
qed

theorem float_to_int16_wraps_witness:
  "sint (float_to_int16 1) = - 32768 \<and> sint (float_to_int16 (3 / 2)) = - 16384 \<and>
   sint (float_to_int16 (- 3 / 2)) = 16384"
  using float_to_int16_wraps [of 1] float_to_int16_wraps [of "3 / 2"]
    float_to_int16_wraps [of "- 3 / 2"]
  by (simp add: js_trunc_def)


subsection \<open>The message handler\<close>

lemma live0_eq:
  "live0 =
     \<lparr>isConnecting = False, isLive = True, transcriptions = [], sessionRef = Some 6,
      audioContextRef = Some \<lparr>ctx_id = 0, ctx_rate = 16000, ctx_state = Suspended\<rparr>,
      outputAudioContextRef = Some \<lparr>ctx_id = 1, ctx_rate = 24000, ctx_state = Suspended\<rparr>,
      processorRef = Some 5, streamRef = Some \<lparr>stream_id = 2, stream_tracks = [3]\<rparr>,
      mediaStreamSourceRef = Some 4, nextStartTimeRef = 0, sourcesRef = [],
      currentInputTranscription = (\<lambda>call. []), currentOutputTranscription = (\<lambda>call. []),
      nextCall = 1,
      effects = [Connect 4 5, ConnectToDestination 5 0], nextObject = 7\<rparr>"
  by (simp add: live0_def granted_def initial_def startConversation_def new_context_def
      on_open_def perform_def fresh_objects_def Let_def fun_upd_idem_iff)

lemma decode_two_zero_bytes: "decode ''AAA='' = Inr [0, 0]"
  by code_simp

lemma decode_not_base64: "decode ''!'' = Inl InvalidCharacterError"
  by code_simp

lemma one_frame:
  "decodeAudioData [0, 0] 24000 (Suc 0) =
     Inr \<lparr>channelData = [[0]], bufferLength = 1, bufferRate = 24000\<rparr>"
  by (simp add: decodeAudioData_def int16_to_float_def)

lemma session_part_flush: "session_part (flush s) = session_part s"
  by (simp add: session_part_def flush_def perform_def)

lemma transcript_part_flush: "transcript_part (flush s) = transcript_part s"
  by (simp add: transcript_part_def flush_def perform_def)

lemma flush_clears: "sourcesRef (flush s) = [] \<and> nextStartTimeRef (flush s) = 0"
  by (simp add: flush_def perform_def)

lemma effects_flush:
  "effects (flush s) = effects s @ map (\<lambda>source. SourceStop (source_id source)) (sourcesRef s)"
  by (simp add: flush_def perform_def)

lemma binary64_above_smallest_normal:
  assumes "2 powi (- 1022) \<le> x"
  shows "0 < binary64 x"
proof -
  have small: "(0::real) < 2 powi (- 1022)" by simp
  with assms have x: "0 < x" by linarith
  have "(2::real) powi (- 1022) < 2 powi (- 1022 + 1)"
    by (rule power_int_strict_increasing) simp_all
  then have "exponent (2 powi (- 1022)) = - 1022"
    by (intro exponent_unique [OF small]) simp_all
  with exponent_mono [OF small assms] have normal: "- 1022 \<le> exponent x" by simp
  have "(0::real) < 2 powi exponent x" by simp
  with round_magnitude_lower [OF x normal] have "0 < round_magnitude x" by linarith
  with x show ?thesis by (simp add: binary64_positive)
qed

lemma frame_duration_positive:
  assumes "0 < n"
  shows "0 < binary64 (real n / 24000)"
proof -
  have "(2::real) powi (- 1022) \<le> 2 powi (- 15)"
    by (rule power_int_increasing) simp_all
  also have "\<dots> = 1 / 2 ^ 15" by (simp add: power_int_minus_divide)
  also have "\<dots> \<le> 1 / 24000" by simp
  also have "\<dots> \<le> real n / 24000"
    using assms by (simp add: divide_right_mono)
  finally show ?thesis by (rule binary64_above_smallest_normal)
qed

lemma chunk_duration_positive: "chunk_duration b = Some d \<Longrightarrow> 0 < d"
  by (auto simp: chunk_duration_def decodeAudioData_def duration_def Let_def
      frame_duration_positive split: sum.splits if_splits)

lemma enqueue_scheduled:
  assumes "chunk_duration b = Some d"
  shows "enqueue t b ctx s =
     (None,
      s\<lparr>nextObject := nextObject s + 1,
        nextStartTimeRef := binary64 (max (nextStartTimeRef s) t + d),
        sourcesRef := sourcesRef s @
          [\<lparr>source_id = nextObject s, start_at = max (nextStartTimeRef s) t,
            buffer_duration = d\<rparr>],
        effects := effects s @
          [ConnectToDestination (nextObject s) (ctx_id ctx),
           SourceStart (nextObject s) (max (nextStartTimeRef s) t) d]\<rparr>)"
  using assms
  by (auto simp: chunk_duration_def enqueue_def Let_def perform_def split: sum.splits)

lemma enqueue_failed:
  assumes "chunk_duration b = None"
  shows "\<exists>e. enqueue t b ctx s = (Some e, s\<lparr>nextStartTimeRef := max (nextStartTimeRef s) t\<rparr>)"
  using assms
  by (auto simp: chunk_duration_def enqueue_def Let_def split: sum.splits)

lemma enqueue_decode_error:
  assumes "decode b = Inl e"
  shows "enqueue t b ctx s = (Some e, s\<lparr>nextStartTimeRef := max (nextStartTimeRef s) t\<rparr>)"
  using assms by (simp add: enqueue_def Let_def)

lemma payload_cases:
  obtains (no_parts) "base64Audio m = Inl TypeError" "payload m = None"
  | (no_payload) "base64Audio m = Inr None \<or> base64Audio m = Inr (Some [])" "payload m = None"
  | (payload) b where "base64Audio m = Inr (Some b)" "b \<noteq> []" "payload m = Some b"
proof (cases "base64Audio m")
  case (Inl e)
  then have "e = TypeError"
    by (auto simp: base64Audio_def split: option.splits list.splits)
  with Inl show ?thesis by (intro no_parts) (simp_all add: payload_def)
next
  case (Inr p)
  show ?thesis
  proof (cases p)
    case None
    with Inr show ?thesis by (intro no_payload) (simp_all add: payload_def)
  next
    case (Some b)
    with Inr show ?thesis
      by (cases "b = []") (auto simp: payload_def intro: no_payload payload)
  qed
qed

lemma play_audio_without_payload:
  assumes "payload m = None"
  shows "snd (play_audio t m s) = s"
    and "fst (play_audio t m s) = (if base64Audio m = Inl TypeError then Some TypeError else None)"
  using assms
  by (cases rule: payload_cases [of m]; auto simp: play_audio_def)+

lemma play_audio_payload:
  assumes "payload m = Some b"
  shows "play_audio t m s =
     (case outputAudioContextRef s of None \<Rightarrow> (None, s) | Some ctx \<Rightarrow> enqueue t b ctx s)"
  using assms
  by (cases rule: payload_cases [of m]) (auto simp: play_audio_def)

lemma play_audio_cases:
  obtains (skipped) "play_audio t m s = (None, s)"
  | (no_parts) "play_audio t m s = (Some TypeError, s)"
  | (failed) e where
      "play_audio t m s = (Some e, s\<lparr>nextStartTimeRef := max (nextStartTimeRef s) t\<rparr>)"
  | (scheduled) d and ctx :: audio_context where "0 < d"
      "play_audio t m s =
        (None,
         s\<lparr>nextObject := nextObject s + 1,
           nextStartTimeRef := binary64 (max (nextStartTimeRef s) t + d),
           sourcesRef := sourcesRef s @
             [\<lparr>source_id = nextObject s, start_at = max (nextStartTimeRef s) t,
               buffer_duration = d\<rparr>],
           effects := effects s @
             [ConnectToDestination (nextObject s) (ctx_id ctx),
              SourceStart (nextObject s) (max (nextStartTimeRef s) t) d]\<rparr>)"
proof (cases rule: payload_cases [of m])
  case no_parts
  then have "play_audio t m s = (Some TypeError, s)" by (simp add: play_audio_def)
  then show ?thesis by (rule that(2))
next
  case no_payload
  then have "play_audio t m s = (None, s)" by (auto simp: play_audio_def)
  then show ?thesis by (rule skipped)
next
  case (payload b)
  show ?thesis
  proof (cases "outputAudioContextRef s")
    case None
    with payload have "play_audio t m s = (None, s)" by (simp add: play_audio_payload)
    then show ?thesis by (rule skipped)
  next
    case (Some ctx)
    with payload have play: "play_audio t m s = enqueue t b ctx s"
      by (simp add: play_audio_payload)
    show ?thesis
    proof (cases "chunk_duration b")
      case None
      from enqueue_failed [OF None, of t ctx s] obtain e where
        "play_audio t m s = (Some e, s\<lparr>nextStartTimeRef := max (nextStartTimeRef s) t\<rparr>)"
        unfolding play by blast
      then show ?thesis by (rule failed)
    next
      case (Some d)
      show ?thesis
        using chunk_duration_positive [OF Some] enqueue_scheduled [OF Some, of t ctx s]
        unfolding play [symmetric] by (rule scheduled)
    qed
  qed
qed

lemma play_audio_frame:
  "session_part (snd (play_audio t m s)) = session_part s \<and>
   transcript_part (snd (play_audio t m s)) = transcript_part s \<and>
   set (sourcesRef s) \<subseteq> set (sourcesRef (snd (play_audio t m s)))"
  by (cases rule: play_audio_cases [of t m s])
    (auto simp: session_part_def transcript_part_def)

lemma session_part_transcript_steps:
  "session_part (complete_turn k m (append_input_transcription k m (append_output_transcription k m s)))
     = session_part s"
  by (simp add: session_part_def complete_turn_def append_input_transcription_def
      append_output_transcription_def split: option.splits)

lemma transcript_steps_frame:
  "sourcesRef (complete_turn k m (append_input_transcription k m (append_output_transcription k m s)))
     = sourcesRef s
   \<and> effects (complete_turn k m (append_input_transcription k m (append_output_transcription k m s)))
     = effects s
   \<and> nextStartTimeRef (complete_turn k m (append_input_transcription k m (append_output_transcription k m s)))
     = nextStartTimeRef s
   \<and> outputAudioContextRef (complete_turn k m (append_input_transcription k m (append_output_transcription k m s)))
     = outputAudioContextRef s
   \<and> nextObject (complete_turn k m (append_input_transcription k m (append_output_transcription k m s)))
     = nextObject s"
  by (simp add: complete_turn_def append_input_transcription_def
      append_output_transcription_def split: option.splits)

lemma transcript_part_steps:
  "transcript_part (complete_turn k m (append_input_transcription k m (append_output_transcription k m s))) =
     (if turnComplete m then
        (transcriptions s @
           [\<lparr>user = currentInputTranscription s k @ fragment (inputTranscription m),
             model = currentOutputTranscription s k @ fragment (outputTranscription m)\<rparr>],
         (currentInputTranscription s)(k := []), (currentOutputTranscription s)(k := []))
      else
        (transcriptions s,
         (currentInputTranscription s)(k := currentInputTranscription s k @ fragment (inputTranscription m)),
         (currentOutputTranscription s)(k := currentOutputTranscription s k @ fragment (outputTranscription m))))"
  by (simp add: transcript_part_def complete_turn_def append_input_transcription_def
      append_output_transcription_def fragment_def split: option.splits)

lemma on_message_unfold:
  "on_message k t m s =
     (let p = play_audio t m
                (complete_turn k m (append_input_transcription k m (append_output_transcription k m s)))
      in case fst p of
           Some e \<Rightarrow> (Some e, snd p)
         | None \<Rightarrow> (None, if interrupted m then flush (snd p) else snd p))"
  by (simp add: on_message_def Let_def split: prod.splits option.splits)

lemma session_part_on_message: "session_part (snd (on_message k t m s)) = session_part s"
  by (simp add: on_message_unfold Let_def play_audio_frame session_part_flush
      session_part_transcript_steps split: option.splits)

lemma transcript_part_on_message:
  "transcript_part (snd (on_message k t m s)) =
     transcript_part (complete_turn k m (append_input_transcription k m (append_output_transcription k m s)))"
  by (simp add: on_message_unfold Let_def play_audio_frame transcript_part_flush
      split: option.splits)

subsection \<open>Claims about the message handler\<close>

lemma chunk_one_frame: "chunk_duration ''AAA='' = Some (binary64 (1 / 24000))"
  by (simp add: chunk_duration_def decode_two_zero_bytes one_frame duration_def)

lemma chunk_not_base64: "chunk_duration ''!'' = None"
  by (simp add: chunk_duration_def decode_not_base64)

lemma frame_at_most_one: "binary64 (1 / 24000) \<le> 1"
  using binary64_mono [of "1 / 24000" 1] by (simp add: binary64_one)

lemma frame_positive: "0 < binary64 (1 / 24000)"
  using frame_duration_positive [of 1] by simp

lemma payload_audio: "b \<noteq> [] \<Longrightarrow> payload (audio b) = Some b"
  by (simp add: payload_def base64Audio_def audio_def silent_def)

lemma payload_silent: "payload silent = None" "base64Audio silent = Inr None"
  by (simp_all add: payload_def base64Audio_def silent_def)

lemma live1_eq:
  "live1 =
     \<lparr>isConnecting = False, isLive = True, transcriptions = [], sessionRef = Some 6,
      audioContextRef = Some \<lparr>ctx_id = 0, ctx_rate = 16000, ctx_state = Suspended\<rparr>,
      outputAudioContextRef = Some \<lparr>ctx_id = 1, ctx_rate = 24000, ctx_state = Suspended\<rparr>,
      processorRef = Some 5, streamRef = Some \<lparr>stream_id = 2, stream_tracks = [3]\<rparr>,
      mediaStreamSourceRef = Some 4, nextStartTimeRef = binary64 (1 / 24000),
      sourcesRef = [\<lparr>source_id = 7, start_at = 0, buffer_duration = binary64 (1 / 24000)\<rparr>],
      currentInputTranscription = (\<lambda>call. []), currentOutputTranscription = (\<lambda>call. []),
      nextCall = 1,
      effects = [Connect 4 5, ConnectToDestination 5 0, ConnectToDestination 7 1,
                 SourceStart 7 0 (binary64 (1 / 24000))],
      nextObject = 8\<rparr>"
  by (simp add: live1_def on_message_def append_output_transcription_def
      append_input_transcription_def complete_turn_def play_audio_def base64Audio_def
      audio_def silent_def enqueue_scheduled [OF chunk_one_frame] live0_eq binary64_idem)

lemma on_message_without_marker:
  "on_message k t (m\<lparr>interrupted := False\<rparr>) s =
     play_audio t m (complete_turn k m (append_input_transcription k m (append_output_transcription k m s)))"
proof -
  let ?s3 = "complete_turn k m (append_input_transcription k m (append_output_transcription k m s))"
  have same: "play_audio t (m\<lparr>interrupted := False\<rparr>) s' = play_audio t m s'" for s'
    by (simp add: play_audio_def base64Audio_def)
  have pre: "complete_turn k (m\<lparr>interrupted := False\<rparr>)
      (append_input_transcription k (m\<lparr>interrupted := False\<rparr>)
        (append_output_transcription k (m\<lparr>interrupted := False\<rparr>) s)) = ?s3"
    by (simp add: complete_turn_def append_input_transcription_def
        append_output_transcription_def)
  show ?thesis
    by (cases "play_audio t m ?s3")
      (simp add: on_message_unfold Let_def pre same split: option.splits)
qed

lemma on_message_interrupted:
  assumes "interrupted m" and "fst (on_message k t m s) = None"
  shows "fst (on_message k t (m\<lparr>interrupted := False\<rparr>) s) = None"
    and "on_message k t m s = (None, flush (snd (on_message k t (m\<lparr>interrupted := False\<rparr>) s)))"
proof -
  let ?s3 = "complete_turn k m (append_input_transcription k m (append_output_transcription k m s))"
  from assms(2) show ok: "fst (on_message k t (m\<lparr>interrupted := False\<rparr>) s) = None"
    by (simp add: on_message_without_marker) (simp add: on_message_unfold Let_def split: option.splits)
  then show "on_message k t m s = (None, flush (snd (on_message k t (m\<lparr>interrupted := False\<rparr>) s)))"
    using assms(1) by (simp add: on_message_without_marker) (simp add: on_message_unfold Let_def)
qed

lemma on_message_completes:
  "fst (on_message k t m s) = None \<longleftrightarrow>
     base64Audio m \<noteq> Inl TypeError \<and>
     (case payload m of
        None \<Rightarrow> True
      | Some b \<Rightarrow> outputAudioContextRef s = None \<or> chunk_duration b \<noteq> None)"
proof -
  let ?s3 = "complete_turn k m (append_input_transcription k m (append_output_transcription k m s))"
  have fst: "fst (on_message k t m s) = fst (play_audio t m ?s3)"
    by (simp add: on_message_unfold Let_def split: option.splits)
  have ctx: "outputAudioContextRef ?s3 = outputAudioContextRef s"
    by (simp add: transcript_steps_frame)
  show ?thesis
  proof (cases rule: payload_cases [of m])
    case no_parts
    then show ?thesis by (simp add: fst play_audio_without_payload)
  next
    case no_payload
    then show ?thesis by (auto simp: fst play_audio_without_payload)
  next
    case (payload b)
    show ?thesis
    proof (cases "outputAudioContextRef s")
      case None
      with payload ctx show ?thesis by (simp add: fst play_audio_payload)
    next
      case (Some c)
      show ?thesis
      proof (cases "chunk_duration b")
        case None
        from enqueue_failed [OF None, of t c ?s3] obtain e where
          "enqueue t b c ?s3 = (Some e, ?s3\<lparr>nextStartTimeRef := max (nextStartTimeRef ?s3) t\<rparr>)"
          by blast
        with payload ctx Some None show ?thesis by (simp add: fst play_audio_payload)
      next
        case d: (Some d)
        with payload ctx Some show ?thesis
          by (simp add: fst play_audio_payload enqueue_scheduled [OF d])
      qed
    qed
  qed
qed

lemma on_message_chunk:
  assumes "carries_chunk m d" and "outputAudioContextRef s = Some ctx"
  shows "on_message k t m s =
     (None,
      (complete_turn k m (append_input_transcription k m (append_output_transcription k m s)))
        \<lparr>nextObject := nextObject s + 1,
         nextStartTimeRef := binary64 (max (nextStartTimeRef s) t + d),
         sourcesRef := sourcesRef s @
           [\<lparr>source_id = nextObject s, start_at = max (nextStartTimeRef s) t,
             buffer_duration = d\<rparr>],
         effects := effects s @
           [ConnectToDestination (nextObject s) (ctx_id ctx),
            SourceStart (nextObject s) (max (nextStartTimeRef s) t) d]\<rparr>)"
proof -
  let ?s3 = "complete_turn k m (append_input_transcription k m (append_output_transcription k m s))"
  from assms(1) obtain b where b: "payload m = Some b" "chunk_duration b = Some d"
    and quiet: "\<not> interrupted m"
    by (auto simp: carries_chunk_def split: option.splits)
  have ctx: "outputAudioContextRef ?s3 = Some ctx"
    using assms(2) by (simp add: transcript_steps_frame)
  have "play_audio t m ?s3 = enqueue t b ctx ?s3"
    using b ctx by (simp add: play_audio_payload)
  then show ?thesis
    using quiet
    by (simp add: on_message_unfold Let_def enqueue_scheduled [OF b(2)] transcript_steps_frame)
qed

text \<open>
  C3. After a flush no source is active and the clock is 0, whatever was active before:
  for the flush itself, for every teardown (stop, transport error, transport close),
  and for every call of the message handler that reaches an interruption marker.
\<close>

theorem flush_leaves_nothing_active:
  "sourcesRef (flush s) = [] \<and> nextStartTimeRef (flush s) = 0 \<and>
   sourcesRef (stopConversation s) = [] \<and> nextStartTimeRef (stopConversation s) = 0 \<and>
   sourcesRef (on_error s) = [] \<and> nextStartTimeRef (on_error s) = 0 \<and>
   sourcesRef (on_close s) = [] \<and> nextStartTimeRef (on_close s) = 0 \<and>
   (interrupted m \<and> fst (on_message k t m s) = None \<longrightarrow>
      sourcesRef (snd (on_message k t m s)) = [] \<and>
      nextStartTimeRef (snd (on_message k t m s)) = 0)"
proof -
  have "sourcesRef (snd (on_message k t m s)) = [] \<and> nextStartTimeRef (snd (on_message k t m s)) = 0"
    if "interrupted m" and "fst (on_message k t m s) = None"
    using on_message_interrupted(2) [OF that] by (simp add: flush_clears)
  then show ?thesis
    by (simp add: flush_clears stopConversation_eq on_error_def on_close_def)
qed

theorem flush_leaves_nothing_active_witness:
  "sourcesRef live1 = [\<lparr>source_id = 7, start_at = 0, buffer_duration = binary64 (1 / 24000)\<rparr>] \<and>
   nextStartTimeRef live1 = binary64 (1 / 24000) \<and> 0 < binary64 (1 / 24000) \<and>
   sourcesRef (flush live1) = [] \<and> nextStartTimeRef (flush live1) = 0 \<and>
   sourcesRef (stopConversation live1) = [] \<and> nextStartTimeRef (stopConversation live1) = 0 \<and>
   sourcesRef (snd (on_message 0 2 (silent\<lparr>interrupted := True\<rparr>) live1)) = [] \<and>
   nextStartTimeRef (snd (on_message 0 2 (silent\<lparr>interrupted := True\<rparr>) live1)) = 0"
proof -
  have "fst (on_message 0 2 (silent\<lparr>interrupted := True\<rparr>) live1) = None"
    by (simp add: on_message_def append_output_transcription_def
        append_input_transcription_def complete_turn_def play_audio_def base64Audio_def
        silent_def)
  then show ?thesis
    using flush_leaves_nothing_active [of live1 "silent\<lparr>interrupted := True\<rparr>" 0 2]
    by (simp add: live1_eq silent_def frame_positive)
qed

text \<open>
  C4, as amended. The handler reads and enqueues the audio of a message before it reads
  the interruption marker, and nothing catches what that throws. The call gets as far
  as the marker exactly when line 533 does not throw (no \<^verbatim>\<open>modelTurn\<close>, or one with
  \<^verbatim>\<open>parts\<close>) and the payload, if there is one and an output context to play it, decodes
  to a buffer. Then the marker adds a flush to what the rest of the message does and
  nothing else: every source that was active is stopped, the set is empty, and what the
  session, the capture path and the transport hold is as before the message; the
  transcript is what the same message without the marker leaves. A message that
  carries the marker alone does nothing but the flush. One call of the handler is one
  step: no other callback runs inside it.
\<close>

theorem interruption_flushes_playback_only:
  "(fst (on_message k t m s) = None \<longleftrightarrow>
      base64Audio m \<noteq> Inl TypeError \<and>
      (case payload m of
         None \<Rightarrow> True
       | Some b \<Rightarrow> outputAudioContextRef s = None \<or> chunk_duration b \<noteq> None)) \<and>
   (interrupted m \<and> fst (on_message k t m s) = None \<longrightarrow>
      on_message k t m s = (None, flush (snd (on_message k t (m\<lparr>interrupted := False\<rparr>) s))) \<and>
      sourcesRef (snd (on_message k t m s)) = [] \<and>
      (\<forall>source \<in> set (sourcesRef s).
         SourceStop (source_id source) \<in> set (effects (snd (on_message k t m s)))) \<and>
      session_part (snd (on_message k t m s)) = session_part s \<and>
      session_state (snd (on_message k t m s)) = session_state s \<and>
      transcript_part (snd (on_message k t m s)) =
        transcript_part (snd (on_message k t (m\<lparr>interrupted := False\<rparr>) s))) \<and>
   on_message k t (silent\<lparr>interrupted := True\<rparr>) s = (None, flush s) \<and>
   transcript_part (flush s) = transcript_part s \<and>
   session_part (flush s) = session_part s"
proof (intro conjI impI)
  show "fst (on_message k t m s) = None \<longleftrightarrow>
      base64Audio m \<noteq> Inl TypeError \<and>
      (case payload m of
         None \<Rightarrow> True
       | Some b \<Rightarrow> outputAudioContextRef s = None \<or> chunk_duration b \<noteq> None)"
    by (rule on_message_completes)
next
  assume a: "interrupted m \<and> fst (on_message k t m s) = None"
  let ?s3 = "complete_turn k m (append_input_transcription k m (append_output_transcription k m s))"
  let ?before = "snd (on_message k t (m\<lparr>interrupted := False\<rparr>) s)"
  show eq: "on_message k t m s = (None, flush ?before)"
    using a by (simp add: on_message_interrupted)
  show "sourcesRef (snd (on_message k t m s)) = []"
    by (simp add: eq flush_clears)
  show "session_part (snd (on_message k t m s)) = session_part s"
    by (rule session_part_on_message)
  then show "session_state (snd (on_message k t m s)) = session_state s"
    by (simp add: session_part_def session_state_def)
  show "transcript_part (snd (on_message k t m s)) = transcript_part ?before"
    by (simp add: eq transcript_part_flush)
  have sub: "set (sourcesRef s) \<subseteq> set (sourcesRef ?before)"
    using play_audio_frame [of t m ?s3]
    by (simp add: on_message_without_marker transcript_steps_frame)
  show "\<forall>source \<in> set (sourcesRef s).
      SourceStop (source_id source) \<in> set (effects (snd (on_message k t m s)))"
    using sub by (auto simp: eq effects_flush)
next
  show "on_message k t (silent\<lparr>interrupted := True\<rparr>) s = (None, flush s)"
    by (simp add: on_message_def append_output_transcription_def
        append_input_transcription_def complete_turn_def play_audio_def base64Audio_def
        silent_def)
  show "transcript_part (flush s) = transcript_part s"
    by (rule transcript_part_flush)
  show "session_part (flush s) = session_part s"
    by (rule session_part_flush)
qed

theorem interruption_flushes_playback_only_witness:
  "interrupted (silent\<lparr>interrupted := True\<rparr>) \<and>
   fst (on_message 0 2 (silent\<lparr>interrupted := True\<rparr>) live1) = None \<and>
   sourcesRef live1 \<noteq> [] \<and>
   sourcesRef (snd (on_message 0 2 (silent\<lparr>interrupted := True\<rparr>) live1)) = [] \<and>
   effects (snd (on_message 0 2 (silent\<lparr>interrupted := True\<rparr>) live1)) = effects live1 @ [SourceStop 7] \<and>
   session_state (snd (on_message 0 2 (silent\<lparr>interrupted := True\<rparr>) live1)) = Live"
  using interruption_flushes_playback_only [of 0 2 "silent\<lparr>interrupted := True\<rparr>" live1]
  by (simp add: live1_eq silent_def flush_def perform_def session_state_def)

text \<open>
  Two messages that carry the marker and never get to it. With a payload that is not
  base64 the handler ends at the decoding; with a \<^verbatim>\<open>modelTurn\<close> that has no \<^verbatim>\<open>parts\<close> it
  ends at line 533. In both the source that was playing is neither stopped nor taken
  out of the set.
\<close>

theorem interruption_lost_after_decode_error:
  "interrupted ((audio ''!'')\<lparr>interrupted := True\<rparr>) \<and>
   on_message 0 2 ((audio ''!'')\<lparr>interrupted := True\<rparr>) live1 =
     (Some InvalidCharacterError, live1\<lparr>nextStartTimeRef := 2\<rparr>) \<and>
   sourcesRef (live1\<lparr>nextStartTimeRef := 2\<rparr>) =
     [\<lparr>source_id = 7, start_at = 0, buffer_duration = binary64 (1 / 24000)\<rparr>] \<and>
   SourceStop 7 \<notin> set (effects (live1\<lparr>nextStartTimeRef := 2\<rparr>)) \<and>
   interrupted (silent\<lparr>modelTurn := Some None, interrupted := True\<rparr>) \<and>
   on_message 0 2 (silent\<lparr>modelTurn := Some None, interrupted := True\<rparr>) live1 =
     (Some TypeError, live1) \<and>
   sourcesRef live1 =
     [\<lparr>source_id = 7, start_at = 0, buffer_duration = binary64 (1 / 24000)\<rparr>] \<and>
   SourceStop 7 \<notin> set (effects live1)"
proof -
  have late: "max (binary64 (1 / 24000)) 2 = 2"
    using frame_at_most_one by simp
  show ?thesis
    by (simp add: on_message_def append_output_transcription_def
        append_input_transcription_def complete_turn_def play_audio_def base64Audio_def
        audio_def silent_def enqueue_decode_error [OF decode_not_base64] live1_eq late)
qed

text \<open>
  C5. A message with the turn-complete marker appends exactly one turn, made of the two
  buffers of its session as they stand once the fragments of that same message are
  appended, and leaves both buffers empty; when nothing was accumulated the turn has
  two empty strings. This holds whatever else the message carries. The buffers of
  other calls of \<^verbatim>\<open>startConversation\<close> stay as they are.
\<close>

theorem turn_completion_appends_one_turn:
  "(turnComplete m \<longrightarrow>
      transcript_part (snd (on_message k t m s)) =
        (transcriptions s @
           [\<lparr>user = currentInputTranscription s k @ fragment (inputTranscription m),
             model = currentOutputTranscription s k @ fragment (outputTranscription m)\<rparr>],
         (currentInputTranscription s)(k := []), (currentOutputTranscription s)(k := [])) \<and>
      currentInputTranscription (snd (on_message k t m s)) k = [] \<and>
      currentOutputTranscription (snd (on_message k t m s)) k = []) \<and>
   (turnComplete m \<and> inputTranscription m = None \<and> outputTranscription m = None \<longrightarrow>
      transcriptions (snd (on_message k t m s)) =
        transcriptions s @
          [\<lparr>user = currentInputTranscription s k, model = currentOutputTranscription s k\<rparr>]) \<and>
   (turnComplete m \<and> inputTranscription m = None \<and> outputTranscription m = None \<and>
    currentInputTranscription s k = [] \<and> currentOutputTranscription s k = [] \<longrightarrow>
      transcriptions (snd (on_message k t m s)) = transcriptions s @ [\<lparr>user = [], model = []\<rparr>])"
proof -
  have part: "transcript_part (snd (on_message k t m s)) =
      (transcriptions s @
         [\<lparr>user = currentInputTranscription s k @ fragment (inputTranscription m),
           model = currentOutputTranscription s k @ fragment (outputTranscription m)\<rparr>],
       (currentInputTranscription s)(k := []), (currentOutputTranscription s)(k := []))"
    if "turnComplete m"
    using that by (simp add: transcript_part_on_message transcript_part_steps)
  have log: "transcriptions (snd (on_message k t m s)) =
      transcriptions s @
        [\<lparr>user = currentInputTranscription s k @ fragment (inputTranscription m),
          model = currentOutputTranscription s k @ fragment (outputTranscription m)\<rparr>]"
    and empty: "currentInputTranscription (snd (on_message k t m s)) k = []"
      "currentOutputTranscription (snd (on_message k t m s)) k = []"
    if "turnComplete m"
    using part [OF that] by (simp_all add: transcript_part_def)
  show ?thesis
    using part log empty by (auto simp: fragment_def)
qed

theorem turn_completion_appends_one_turn_witness:
  "turnComplete (silent\<lparr>outputTranscription := Some (Some ''hello''), turnComplete := True\<rparr>) \<and>
   transcript_part
     (snd (on_message 0 1 (silent\<lparr>outputTranscription := Some (Some ''hello''), turnComplete := True\<rparr>)
        (snd (on_message 0 0 (silent\<lparr>inputTranscription := Some (Some ''hi'')\<rparr>) live0)))) =
     ([\<lparr>user = ''hi'', model = ''hello''\<rparr>], (\<lambda>call. []), (\<lambda>call. [])) \<and>
   transcriptions (snd (on_message 0 1 (silent\<lparr>turnComplete := True\<rparr>) live0)) =
     [\<lparr>user = [], model = []\<rparr>]"
proof -
  have first: "snd (on_message 0 0 (silent\<lparr>inputTranscription := Some (Some ''hi'')\<rparr>) live0) =
      live0\<lparr>currentInputTranscription := (\<lambda>call. [])(0 := ''hi'')\<rparr>"
    by (simp add: on_message_def append_output_transcription_def
        append_input_transcription_def complete_turn_def play_audio_def base64Audio_def
        silent_def js_text_def live0_eq)
  show ?thesis
    unfolding first
    using turn_completion_appends_one_turn
        [of "silent\<lparr>outputTranscription := Some (Some ''hello''), turnComplete := True\<rparr>" 0 1
          "live0\<lparr>currentInputTranscription := (\<lambda>call. [])(0 := ''hi'')\<rparr>"]
      turn_completion_appends_one_turn [of "silent\<lparr>turnComplete := True\<rparr>" 0 1 live0]
    by (simp add: silent_def fragment_def js_text_def live0_eq fun_upd_idem_iff)
qed

text \<open>
  C9, as amended. A message whose audio payload is not base64 ends the handler at the
  decoding, with an error that nobody observes. No call is made on any object (nothing
  is closed, stopped or scheduled), the session state and every resource are as
  before, and a chunk that comes in a later message is scheduled as usual. The message
  is not dropped as a whole: the state left is the one that the same message without
  its payload and without its interruption marker leaves, with the clock raised to the
  device time. So its fragments and its turn completion are applied, and its audio and
  its marker are lost.
\<close>

theorem malformed_audio_ends_the_call_only:
  "payload m = Some b \<and> outputAudioContextRef s = Some ctx \<and> decode b = Inl e \<longrightarrow>
     fst (on_message k t m s) = Some e \<and>
     session_part (snd (on_message k t m s)) = session_part s \<and>
     session_state (snd (on_message k t m s)) = session_state s \<and>
     effects (snd (on_message k t m s)) = effects s \<and>
     sourcesRef (snd (on_message k t m s)) = sourcesRef s \<and>
     on_message k t (m\<lparr>modelTurn := None, interrupted := False\<rparr>) s =
       (None, complete_turn k m (append_input_transcription k m (append_output_transcription k m s))) \<and>
     snd (on_message k t m s) =
       (snd (on_message k t (m\<lparr>modelTurn := None, interrupted := False\<rparr>) s))
         \<lparr>nextStartTimeRef := max (nextStartTimeRef s) t\<rparr> \<and>
     (carries_chunk m' d \<longrightarrow>
        fst (on_message k' t' m' (snd (on_message k t m s))) = None \<and>
        session_state (snd (on_message k' t' m' (snd (on_message k t m s)))) = session_state s \<and>
        sourcesRef (snd (on_message k' t' m' (snd (on_message k t m s)))) =
          sourcesRef s @
            [\<lparr>source_id = nextObject s, start_at = max (max (nextStartTimeRef s) t) t',
              buffer_duration = d\<rparr>])"
proof (intro impI)
  assume a: "payload m = Some b \<and> outputAudioContextRef s = Some ctx \<and> decode b = Inl e"
  let ?s3 = "complete_turn k m (append_input_transcription k m (append_output_transcription k m s))"
  let ?after = "snd (on_message k t m s)"
  have frame: "sourcesRef ?s3 = sourcesRef s" "effects ?s3 = effects s"
    "nextStartTimeRef ?s3 = nextStartTimeRef s" "outputAudioContextRef ?s3 = outputAudioContextRef s"
    "nextObject ?s3 = nextObject s"
    by (simp_all add: transcript_steps_frame)
  have play: "play_audio t m ?s3 = (Some e, ?s3\<lparr>nextStartTimeRef := max (nextStartTimeRef s) t\<rparr>)"
    using a by (simp add: play_audio_payload frame enqueue_decode_error)
  have whole: "on_message k t m s = (Some e, ?s3\<lparr>nextStartTimeRef := max (nextStartTimeRef s) t\<rparr>)"
    by (simp add: on_message_unfold Let_def play)
  have bare: "on_message k t (m\<lparr>modelTurn := None, interrupted := False\<rparr>) s = (None, ?s3)"
    by (simp add: on_message_def Let_def play_audio_def base64Audio_def complete_turn_def
        append_input_transcription_def append_output_transcription_def)
  have sp: "session_part ?after = session_part s"
    by (rule session_part_on_message)
  have later: "fst (on_message k' t' m' ?after) = None \<and>
      session_state (snd (on_message k' t' m' ?after)) = session_state s \<and>
      sourcesRef (snd (on_message k' t' m' ?after)) =
        sourcesRef s @
          [\<lparr>source_id = nextObject s, start_at = max (max (nextStartTimeRef s) t) t',
            buffer_duration = d\<rparr>]"
    if chunk: "carries_chunk m' d"
  proof -
    have ctx: "outputAudioContextRef ?after = Some ctx"
      using a by (simp add: whole frame)
    have "session_part (snd (on_message k' t' m' ?after)) = session_part s"
      by (simp add: session_part_on_message)
    then have "session_state (snd (on_message k' t' m' ?after)) = session_state s"
      by (simp add: session_part_def session_state_def)
    moreover have "sourcesRef ?after = sourcesRef s" "nextObject ?after = nextObject s"
      "nextStartTimeRef ?after = max (nextStartTimeRef s) t"
      by (simp_all add: whole frame)
    ultimately show ?thesis
      by (simp add: on_message_chunk [OF chunk ctx])
  qed
  show "fst (on_message k t m s) = Some e \<and>
     session_part (snd (on_message k t m s)) = session_part s \<and>
     session_state (snd (on_message k t m s)) = session_state s \<and>
     effects (snd (on_message k t m s)) = effects s \<and>
     sourcesRef (snd (on_message k t m s)) = sourcesRef s \<and>
     on_message k t (m\<lparr>modelTurn := None, interrupted := False\<rparr>) s =
       (None, complete_turn k m (append_input_transcription k m (append_output_transcription k m s))) \<and>
     snd (on_message k t m s) =
       (snd (on_message k t (m\<lparr>modelTurn := None, interrupted := False\<rparr>) s))
         \<lparr>nextStartTimeRef := max (nextStartTimeRef s) t\<rparr> \<and>
     (carries_chunk m' d \<longrightarrow>
        fst (on_message k' t' m' (snd (on_message k t m s))) = None \<and>
        session_state (snd (on_message k' t' m' (snd (on_message k t m s)))) = session_state s \<and>
        sourcesRef (snd (on_message k' t' m' (snd (on_message k t m s)))) =
          sourcesRef s @
            [\<lparr>source_id = nextObject s, start_at = max (max (nextStartTimeRef s) t) t',
              buffer_duration = d\<rparr>])"
  proof (intro conjI impI)
    show "session_part (snd (on_message k t m s)) = session_part s" by (rule sp)
    then show "session_state (snd (on_message k t m s)) = session_state s"
      by (simp add: session_part_def session_state_def)
    show "on_message k t (m\<lparr>modelTurn := None, interrupted := False\<rparr>) s = (None, ?s3)"
      by (rule bare)
  next
    assume chunk: "carries_chunk m' d"
    from later [OF chunk] show "fst (on_message k' t' m' ?after) = None"
      and "session_state (snd (on_message k' t' m' ?after)) = session_state s"
      and "sourcesRef (snd (on_message k' t' m' ?after)) =
        sourcesRef s @
          [\<lparr>source_id = nextObject s, start_at = max (max (nextStartTimeRef s) t) t',
            buffer_duration = d\<rparr>]"
      by blast+
  qed (simp_all add: whole bare frame)
qed

lemma audio_carries_one_frame: "carries_chunk (audio ''AAA='') (binary64 (1 / 24000))"
  by (simp add: carries_chunk_def payload_audio chunk_one_frame) (simp add: audio_def silent_def)

theorem malformed_audio_ends_the_call_only_witness:
  "payload (audio ''!'') = Some ''!'' \<and> decode ''!'' = Inl InvalidCharacterError \<and>
   session_state live1 = Live \<and>
   fst (on_message 0 2 (audio ''!'') live1) = Some InvalidCharacterError \<and>
   session_state (snd (on_message 0 2 (audio ''!'') live1)) = session_state live1 \<and>
   effects (snd (on_message 0 2 (audio ''!'') live1)) = effects live1 \<and>
   sourcesRef (snd (on_message 0 2 (audio ''!'') live1)) = sourcesRef live1 \<and>
   carries_chunk (audio ''AAA='') (binary64 (1 / 24000)) \<and>
   fst (on_message 0 3 (audio ''AAA='') (snd (on_message 0 2 (audio ''!'') live1))) = None \<and>
   sourcesRef (snd (on_message 0 3 (audio ''AAA='') (snd (on_message 0 2 (audio ''!'') live1)))) =
     [\<lparr>source_id = 7, start_at = 0, buffer_duration = binary64 (1 / 24000)\<rparr>,
      \<lparr>source_id = 8, start_at = 3, buffer_duration = binary64 (1 / 24000)\<rparr>]"
proof -
  have b: "payload (audio ''!'') = Some ''!''"
    by (simp add: payload_audio)
  have hyp: "payload (audio ''!'') = Some ''!'' \<and>
      outputAudioContextRef live1 = Some \<lparr>ctx_id = 1, ctx_rate = 24000, ctx_state = Suspended\<rparr> \<and>
      decode ''!'' = Inl InvalidCharacterError"
    by (simp add: b decode_not_base64) (simp add: live1_eq)
  note inst = malformed_audio_ends_the_call_only
    [of "audio ''!''" "''!''" live1 "\<lparr>ctx_id = 1, ctx_rate = 24000, ctx_state = Suspended\<rparr>"
      InvalidCharacterError 0 2 "audio ''AAA=''" "binary64 (1 / 24000)" 0 3, THEN mp, OF hyp]
  have live: "session_state live1 = Live"
    by (simp add: live1_eq session_state_def)
  have late: "max (max (binary64 (1 / 24000)) 2) 3 = 3"
    using frame_at_most_one by simp
  note first = inst [THEN conjunct1]
  note state = inst [THEN conjunct2, THEN conjunct2, THEN conjunct1]
  note eff = inst [THEN conjunct2, THEN conjunct2, THEN conjunct2, THEN conjunct1]
  note src = inst [THEN conjunct2, THEN conjunct2, THEN conjunct2, THEN conjunct2, THEN conjunct1]
  note next_chunk = inst [THEN conjunct2, THEN conjunct2, THEN conjunct2, THEN conjunct2,
    THEN conjunct2, THEN conjunct2, THEN conjunct2, THEN mp, OF audio_carries_one_frame]
  have srcs: "sourcesRef (snd (on_message 0 3 (audio ''AAA='') (snd (on_message 0 2 (audio ''!'') live1)))) =
     [\<lparr>source_id = 7, start_at = 0, buffer_duration = binary64 (1 / 24000)\<rparr>,
      \<lparr>source_id = 8, start_at = 3, buffer_duration = binary64 (1 / 24000)\<rparr>]"
    using next_chunk [THEN conjunct2, THEN conjunct2] by (simp add: live1_eq late)
  from hyp live first state eff src audio_carries_one_frame next_chunk [THEN conjunct1] srcs
  show ?thesis by (intro conjI) simp_all
qed

text \<open>
  A message with a fragment, the turn-complete marker and a payload that is not base64,
  handled at device time 2 while the clock stands at the end of the first buffer. The
  call ends with the error, and the message is not dropped: its turn is in the log and
  the clock has moved to 2.
\<close>

theorem malformed_message_is_not_dropped:
  "payload ((audio ''!'')\<lparr>outputTranscription := Some (Some ''hello''), turnComplete := True\<rparr>) = Some ''!'' \<and>
   decode ''!'' = Inl InvalidCharacterError \<and>
   fst (on_message 0 2
     ((audio ''!'')\<lparr>outputTranscription := Some (Some ''hello''), turnComplete := True\<rparr>) live1) =
     Some InvalidCharacterError \<and>
   transcriptions live1 = [] \<and>
   transcriptions (snd (on_message 0 2
     ((audio ''!'')\<lparr>outputTranscription := Some (Some ''hello''), turnComplete := True\<rparr>) live1)) =
     [\<lparr>user = [], model = ''hello''\<rparr>] \<and>
   nextStartTimeRef live1 = binary64 (1 / 24000) \<and> binary64 (1 / 24000) \<le> 1 \<and>
   nextStartTimeRef (snd (on_message 0 2
     ((audio ''!'')\<lparr>outputTranscription := Some (Some ''hello''), turnComplete := True\<rparr>) live1)) = 2 \<and>
   snd (on_message 0 2
     ((audio ''!'')\<lparr>outputTranscription := Some (Some ''hello''), turnComplete := True\<rparr>) live1) \<noteq> live1"
proof -
  let ?m = "(audio ''!'')\<lparr>outputTranscription := Some (Some ''hello''), turnComplete := True\<rparr>"
  have late: "max (binary64 (1 / 24000)) 2 = 2"
    using frame_at_most_one by simp
  have after: "on_message 0 2 ?m live1 =
      (Some InvalidCharacterError,
       live1\<lparr>transcriptions := [\<lparr>user = [], model = ''hello''\<rparr>], nextStartTimeRef := 2\<rparr>)"
    by (simp add: on_message_def append_output_transcription_def
        append_input_transcription_def complete_turn_def play_audio_def base64Audio_def
        audio_def silent_def js_text_def enqueue_decode_error [OF decode_not_base64] live1_eq
        late fun_upd_idem_iff)
  have differs: "live1\<lparr>transcriptions := [\<lparr>user = [], model = ''hello''\<rparr>], nextStartTimeRef := 2\<rparr> \<noteq> live1"
  proof
    assume "live1\<lparr>transcriptions := [\<lparr>user = [], model = ''hello''\<rparr>], nextStartTimeRef := 2\<rparr> = live1"
    then have "transcriptions (live1\<lparr>transcriptions := [\<lparr>user = [], model = ''hello''\<rparr>],
        nextStartTimeRef := 2\<rparr>) = transcriptions live1"
      by (rule arg_cong)
    then show False by (simp add: live1_eq)
  qed
  have p: "payload ?m = Some ''!''"
    by (simp add: payload_def base64Audio_def audio_def silent_def)
  show ?thesis
    unfolding after
    using differs p frame_at_most_one by (simp add: decode_not_base64) (simp add: live1_eq)
qed

subsection \<open>Claims about start and stop\<close>









subsection \<open>startConversation\<close>

lemma catch_start_eq: "catch_start e s = stopConversation (perform (report e) s)"
  by (simp add: catch_start_def report_def)


lemma catch_start_frame:
  "released (catch_start e s) \<and> session_state (catch_start e s) = Idle \<and>
   transcriptions (catch_start e s) = transcriptions s \<and>
   audioContextRef (catch_start e s) = audioContextRef s \<and>
   outputAudioContextRef (catch_start e s) = outputAudioContextRef s"
  by (simp add: catch_start_eq stopConversation_eq perform_def released_def session_state_def)

lemma start_at_client:
  assumes "client_fails env = Some e"
  shows "startConversation env s = catch_start e (s\<lparr>isConnecting := True, transcriptions := []\<rparr>)"
  using assms by (simp add: startConversation_def)

lemma start_at_input_context:
  assumes "client_fails env = None" and "input_context_fails env = Some e"
  shows "startConversation env s = catch_start e (s\<lparr>isConnecting := True, transcriptions := []\<rparr>)"
  using assms by (simp add: startConversation_def)

lemma start_at_output_context:
  assumes "client_fails env = None" and "input_context_fails env = None"
    and "output_context_fails env = Some e"
  shows "startConversation env s =
     catch_start e
       (s\<lparr>isConnecting := True, transcriptions := [],
          audioContextRef := Some \<lparr>ctx_id = nextObject s, ctx_rate = 16000, ctx_state = Suspended\<rparr>,
          nextObject := nextObject s + 1\<rparr>)"
  using assms by (simp add: startConversation_def new_context_def)

lemma start_at_user_media:
  assumes "client_fails env = None" and "input_context_fails env = None"
    and "output_context_fails env = None" and "user_media env = Inl e"
  shows "startConversation env s =
     catch_start e
       (s\<lparr>isConnecting := True, transcriptions := [],
          audioContextRef := Some \<lparr>ctx_id = nextObject s, ctx_rate = 16000, ctx_state = Suspended\<rparr>,
          outputAudioContextRef :=
            Some \<lparr>ctx_id = nextObject s + 1, ctx_rate = 24000, ctx_state = Suspended\<rparr>,
          nextObject := nextObject s + 2\<rparr>)"
  using assms by (simp add: startConversation_def new_context_def)

lemma start_at_connect:
  assumes "client_fails env = None" and "input_context_fails env = None"
    and "output_context_fails env = None" and "user_media env = Inr n"
    and "connect_fails env = Some e"
  shows "startConversation env s =
     catch_start e
       (s\<lparr>isConnecting := True, transcriptions := [],
          audioContextRef := Some \<lparr>ctx_id = nextObject s, ctx_rate = 16000, ctx_state = Suspended\<rparr>,
          outputAudioContextRef :=
            Some \<lparr>ctx_id = nextObject s + 1, ctx_rate = 24000, ctx_state = Suspended\<rparr>,
          streamRef :=
            Some \<lparr>stream_id = nextObject s + 2,
                  stream_tracks = fresh_objects (nextObject s + 3) n\<rparr>,
          nextObject := nextObject s + n + 3,
          currentInputTranscription := (currentInputTranscription s)(nextCall s := []),
          currentOutputTranscription := (currentOutputTranscription s)(nextCall s := []),
          nextCall := nextCall s + 1\<rparr>)"
  using assms by (simp add: startConversation_def new_context_def Let_def numeral_3_eq_3)

lemma start_succeeds:
  assumes "client_fails env = None" and "input_context_fails env = None"
    and "output_context_fails env = None" and "user_media env = Inr n"
    and "connect_fails env = None"
  shows "startConversation env s =
     s\<lparr>isConnecting := False, isLive := True, transcriptions := [],
       audioContextRef := Some \<lparr>ctx_id = nextObject s, ctx_rate = 16000, ctx_state = Suspended\<rparr>,
       outputAudioContextRef :=
         Some \<lparr>ctx_id = nextObject s + 1, ctx_rate = 24000, ctx_state = Suspended\<rparr>,
       streamRef :=
         Some \<lparr>stream_id = nextObject s + 2,
               stream_tracks = fresh_objects (nextObject s + 3) n\<rparr>,
       currentInputTranscription := (currentInputTranscription s)(nextCall s := []),
       currentOutputTranscription := (currentOutputTranscription s)(nextCall s := []),
       nextCall := nextCall s + 1,
       mediaStreamSourceRef := Some (nextObject s + 3 + n),
       processorRef := Some (nextObject s + 4 + n),
       sessionRef := Some (nextObject s + 5 + n),
       nextObject := nextObject s + 6 + n,
       effects := effects s @
         [Connect (nextObject s + 3 + n) (nextObject s + 4 + n),
          ConnectToDestination (nextObject s + 4 + n) (nextObject s)]\<rparr>"
  using assms
  by (intro live_analyst.equality)
    (simp_all add: startConversation_def new_context_def on_open_def perform_def Let_def
      numeral_3_eq_3)

lemma transcriptions_startConversation: "transcriptions (startConversation env s) = []"
proof (cases "client_fails env")
  case (Some e)
  then show ?thesis by (simp add: start_at_client catch_start_frame)
next
  case c: None
  show ?thesis
  proof (cases "input_context_fails env")
    case (Some e)
    with c show ?thesis by (simp add: start_at_input_context catch_start_frame)
  next
    case i: None
    show ?thesis
    proof (cases "output_context_fails env")
      case (Some e)
      with c i show ?thesis by (simp add: start_at_output_context catch_start_frame)
    next
      case out: None
      show ?thesis
      proof (cases "user_media env")
        case (Inl e)
        with c i out show ?thesis by (simp add: start_at_user_media catch_start_frame)
      next
        case (Inr n)
        show ?thesis
        proof (cases "connect_fails env")
          case (Some e)
          with c i out Inr show ?thesis by (simp add: start_at_connect catch_start_frame)
        next
          case None
          with c i out Inr show ?thesis by (simp add: start_succeeds)
        qed
      qed
    qed
  qed
qed






text \<open>
  Why the statement above starts from a state with no open context: a start right after
  a stop, before the close of the old contexts has completed, closes them once more
  when it fails, though it acquired nothing.
\<close>

lemma failed_start_after_stop_recloses:
  "effects (startConversation (granted\<lparr>input_context_fails := Some (ErrorObject ''no device'')\<rparr>)
      (stopConversation live1)) =
     effects (stopConversation live1) @
       [ConsoleError ''Failed to start conversation:'',
        Alert ''Could not start the conversation: no device'', ContextClose 0, ContextClose 1]"
  by (simp add: start_at_input_context granted_def catch_start_eq perform_def report_def
      error_text_def)
    (simp add: stopConversation_eq live1_eq close_context_def)

text \<open>
  C10, as amended. Every stop leaves the session not connected, the playback clock at 0
  and no source active, and leaves the transcript as it is: the log and the fragment
  buffers. The log is emptied by the next start, whatever its outcome.
\<close>

theorem stop_resets_session_and_playback_only:
  "session_state (stopConversation s) = Idle \<and> released (stopConversation s) \<and>
   nextStartTimeRef (stopConversation s) = 0 \<and> sourcesRef (stopConversation s) = [] \<and>
   transcriptions (stopConversation s) = transcriptions s \<and>
   currentInputTranscription (stopConversation s) = currentInputTranscription s \<and>
   currentOutputTranscription (stopConversation s) = currentOutputTranscription s \<and>
   transcriptions (startConversation env s) = []"
proof (intro conjI)
  show "released (stopConversation s)"
    by (rule released_stopConversation)
  then show "session_state (stopConversation s) = Idle"
    by (simp add: released_def session_state_def)
  show "nextStartTimeRef (stopConversation s) = 0" "sourcesRef (stopConversation s) = []"
    "transcriptions (stopConversation s) = transcriptions s"
    "currentInputTranscription (stopConversation s) = currentInputTranscription s"
    "currentOutputTranscription (stopConversation s) = currentOutputTranscription s"
    by (simp_all add: stopConversation_eq)
  show "transcriptions (startConversation env s) = []"
    by (rule transcriptions_startConversation)
qed

lemma talked:
  "run live0 [ServerMessage 0 0 heard, ServerMessage 0 1 answered, ServerMessage 0 2 heard] =
     live0\<lparr>transcriptions := [\<lparr>user = ''hi'', model = ''hello''\<rparr>],
           currentInputTranscription := (\<lambda>call. [])(0 := ''hi'')\<rparr>"
  by (simp add: on_message_def append_output_transcription_def
      append_input_transcription_def complete_turn_def play_audio_def base64Audio_def
      heard_def answered_def silent_def js_text_def live0_eq fun_upd_idem_iff)

theorem stop_resets_session_and_playback_only_witness:
  "session_state
     (run live0 [ServerMessage 0 0 heard, ServerMessage 0 1 answered, ServerMessage 0 2 heard]) = Live \<and>
   session_state (stopConversation
     (run live0 [ServerMessage 0 0 heard, ServerMessage 0 1 answered, ServerMessage 0 2 heard])) = Idle \<and>
   nextStartTimeRef (stopConversation
     (run live0 [ServerMessage 0 0 heard, ServerMessage 0 1 answered, ServerMessage 0 2 heard])) = 0 \<and>
   transcriptions (stopConversation
     (run live0 [ServerMessage 0 0 heard, ServerMessage 0 1 answered, ServerMessage 0 2 heard])) =
     [\<lparr>user = ''hi'', model = ''hello''\<rparr>] \<and>
   transcriptions (startConversation granted (stopConversation
     (run live0 [ServerMessage 0 0 heard, ServerMessage 0 1 answered, ServerMessage 0 2 heard]))) = []"
proof -
  let ?s = "run live0 [ServerMessage 0 0 heard, ServerMessage 0 1 answered, ServerMessage 0 2 heard]"
  note stop = stop_resets_session_and_playback_only [of ?s granted]
  note start = stop_resets_session_and_playback_only [of "stopConversation ?s" granted]
  have live: "session_state ?s = Live"
    unfolding talked by (simp add: live0_eq session_state_def)
  have log: "transcriptions ?s = [\<lparr>user = ''hi'', model = ''hello''\<rparr>]"
    unfolding talked by simp
  from stop have "transcriptions (stopConversation ?s) = transcriptions ?s" by blast
  with log have kept: "transcriptions (stopConversation ?s) = [\<lparr>user = ''hi'', model = ''hello''\<rparr>]"
    by simp
  from stop have idle: "session_state (stopConversation ?s) = Idle"
    and clock: "nextStartTimeRef (stopConversation ?s) = 0" by blast+
  from start have fresh: "transcriptions (startConversation granted (stopConversation ?s)) = []"
    by blast
  from live idle clock kept fresh show ?thesis by (intro conjI)
qed

text \<open>
  After a turn was logged and a fragment of the next turn was heard, a click on the
  button stops the session: the turn stays in the log and the fragment in its buffer.
\<close>

theorem transcript_survives_stop:
  "session_state
     (run live0 [ServerMessage 0 0 heard, ServerMessage 0 1 answered, ServerMessage 0 2 heard]) = Live \<and>
   session_state
     (run live0 [ServerMessage 0 0 heard, ServerMessage 0 1 answered, ServerMessage 0 2 heard,
                 Click granted]) = Idle \<and>
   transcriptions
     (run live0 [ServerMessage 0 0 heard, ServerMessage 0 1 answered, ServerMessage 0 2 heard,
                 Click granted]) = [\<lparr>user = ''hi'', model = ''hello''\<rparr>] \<and>
   currentInputTranscription
     (run live0 [ServerMessage 0 0 heard, ServerMessage 0 1 answered, ServerMessage 0 2 heard,
                 Click granted]) 0 = ''hi''"
proof -
  have split:
    "run live0 [ServerMessage 0 0 heard, ServerMessage 0 1 answered, ServerMessage 0 2 heard,
                Click granted] =
      step (Click granted)
        (run live0 [ServerMessage 0 0 heard, ServerMessage 0 1 answered, ServerMessage 0 2 heard])"
    by simp
  show ?thesis
    unfolding split talked
    by (simp add: live0_eq session_state_def stopConversation_eq)
qed

subsection \<open>The playback schedule\<close>

lemma scheduled_append: "scheduled (xs @ ys) = scheduled xs @ scheduled ys"
  by (induction xs rule: scheduled.induct) simp_all

lemma run_append: "run s (xs @ ys) = run (run s xs) ys"
  by (induction xs arbitrary: s) simp_all

lemma run_snoc: "run s (es @ [e]) = step e (run s es)"
  by (simp add: run_append)

lemma chunks_snoc:
  "chunks (es @ [e]) = chunks es @ (case chunk_of e of None \<Rightarrow> [] | Some c \<Rightarrow> [c])"
  by (simp add: chunks_def List.map_filter_def split: option.splits)

lemma rounded_sum_Nil: "rounded_sum a [] = a"
  by (simp add: rounded_sum_def)

lemma rounded_sum_snoc: "rounded_sum a (ds @ [d]) = binary64 (rounded_sum a ds + d)"
  by (simp add: rounded_sum_def)

text \<open>What one event without a flush does to the log of started sources and to the clock.\<close>

lemma quiet_step_cases:
  assumes "quiet e" and "outputAudioContextRef s \<noteq> None"
  obtains (idle) "chunk_of e = None"
      "scheduled (effects (step e s)) = scheduled (effects s)"
      "nextStartTimeRef (step e s) = nextStartTimeRef s"
      "outputAudioContextRef (step e s) \<noteq> None"
  | (raised) call t m where "e = ServerMessage call t m" "payload m \<noteq> None"
      "chunk_of e = None"
      "scheduled (effects (step e s)) = scheduled (effects s)"
      "nextStartTimeRef (step e s) = max (nextStartTimeRef s) t"
      "outputAudioContextRef (step e s) \<noteq> None"
  | (chunk) call t m d where "e = ServerMessage call t m" "payload m \<noteq> None"
      "chunk_of e = Some (t, d)" "0 < d"
      "scheduled (effects (step e s)) = scheduled (effects s) @ [(max (nextStartTimeRef s) t, d)]"
      "nextStartTimeRef (step e s) = binary64 (max (nextStartTimeRef s) t + d)"
      "outputAudioContextRef (step e s) \<noteq> None"
proof (cases e)
  case (ServerMessage call t m)
  let ?s3 = "complete_turn call m (append_input_transcription call m (append_output_transcription call m s))"
  from assms(1) ServerMessage have marker: "\<not> interrupted m" by (simp add: quiet_def)
  have frame: "effects ?s3 = effects s" "nextStartTimeRef ?s3 = nextStartTimeRef s"
    "outputAudioContextRef ?s3 = outputAudioContextRef s"
    by (simp_all add: transcript_steps_frame)
  have step: "step e s = snd (play_audio t m ?s3)"
    using marker by (simp add: ServerMessage on_message_unfold Let_def split: option.splits)
  show ?thesis
  proof (cases "payload m")
    case None
    then have "step e s = ?s3" by (simp add: step play_audio_without_payload)
    with None assms(2) show ?thesis
      by (intro idle) (simp_all add: ServerMessage chunk_of_def frame)
  next
    case (Some b)
    from assms(2) obtain ctx where ctx: "outputAudioContextRef ?s3 = Some ctx"
      by (auto simp: frame)
    have play: "step e s = snd (enqueue t b ctx ?s3)"
      using Some ctx by (simp add: step play_audio_payload)
    show ?thesis
    proof (cases "chunk_duration b")
      case None
      from enqueue_failed [OF None, of t ctx ?s3] obtain err where
        "enqueue t b ctx ?s3 = (Some err, ?s3\<lparr>nextStartTimeRef := max (nextStartTimeRef ?s3) t\<rparr>)"
        by blast
      then have "step e s = ?s3\<lparr>nextStartTimeRef := max (nextStartTimeRef s) t\<rparr>"
        by (simp add: play frame)
      with Some None assms(2) show ?thesis
        by (intro raised [of call t m]) (simp_all add: ServerMessage chunk_of_def frame)
    next
      case d: (Some d)
      have "step e s =
          ?s3\<lparr>nextObject := nextObject ?s3 + 1,
              nextStartTimeRef := binary64 (max (nextStartTimeRef s) t + d),
              sourcesRef := sourcesRef ?s3 @
                [\<lparr>source_id = nextObject ?s3, start_at = max (nextStartTimeRef s) t,
                  buffer_duration = d\<rparr>],
              effects := effects s @
                [ConnectToDestination (nextObject ?s3) (ctx_id ctx),
                 SourceStart (nextObject ?s3) (max (nextStartTimeRef s) t) d]\<rparr>"
        by (simp add: play enqueue_scheduled [OF d] frame)
      with Some d assms(2) chunk_duration_positive [OF d] show ?thesis
        by (intro chunk [of call t m d])
          (simp_all add: ServerMessage chunk_of_def frame scheduled_append)
    qed
  qed
next
  case (SourceEnded n)
  with assms(2) show ?thesis
    by (intro idle) (simp_all add: chunk_of_def source_ended_def)
next
  case (AudioProcess inputData)
  with assms(2) show ?thesis
    by (intro idle) (simp_all add: chunk_of_def on_audio_process_def perform_def scheduled_append)
next
  case (ContextClosed n)
  with assms(2) show ?thesis
    by (intro idle)
      (auto simp: chunk_of_def context_closed_def mark_closed_def split: option.splits)
qed (insert assms(1), simp_all add: quiet_def)

lemma context_stays:
  assumes "outputAudioContextRef s \<noteq> None" and "list_all quiet es"
  shows "outputAudioContextRef (run s es) \<noteq> None"
  using assms
proof (induction es arbitrary: s)
  case Nil
  then show ?case by simp
next
  case (Cons e es)
  from Cons.prems have q: "quiet e" and rest: "list_all quiet es" by simp_all
  have "outputAudioContextRef (step e s) \<noteq> None"
    by (cases rule: quiet_step_cases [OF q Cons.prems(1)])
  from Cons.IH [OF this rest] show ?case by simp
qed

lemma list_all_take: "list_all P xs \<Longrightarrow> list_all P (take k xs)"
  by (auto simp: list_all_iff dest: in_set_takeD)

lemma scheduled_grows:
  assumes "outputAudioContextRef s \<noteq> None" and "list_all quiet es"
  shows "\<exists>new. scheduled (effects (run s es)) = scheduled (effects s) @ new"
  using assms
proof (induction es arbitrary: s)
  case Nil
  then show ?case by simp
next
  case (Cons e es)
  from Cons.prems have q: "quiet e" and rest: "list_all quiet es" by simp_all
  have "outputAudioContextRef (step e s) \<noteq> None
      \<and> (\<exists>new. scheduled (effects (step e s)) = scheduled (effects s) @ new)"
    by (cases rule: quiet_step_cases [OF q Cons.prems(1)]) simp_all
  then obtain new where ctx: "outputAudioContextRef (step e s) \<noteq> None"
    and new: "scheduled (effects (step e s)) = scheduled (effects s) @ new"
    by blast
  from Cons.IH [OF ctx rest] obtain new' where
    "scheduled (effects (run (step e s) es)) = scheduled (effects (step e s)) @ new'"
    by blast
  with new show ?case by simp
qed

lemma scheduled_run:
  assumes "outputAudioContextRef s \<noteq> None" and "list_all quiet es"
  shows "scheduled (effects (run s es)) = scheduled (effects s) @ newly_scheduled s es"
proof -
  from scheduled_grows [OF assms] obtain new where
    "scheduled (effects (run s es)) = scheduled (effects s) @ new"
    by blast
  then show ?thesis by (simp add: newly_scheduled_def)
qed

lemma newly_scheduled_snoc:
  assumes "outputAudioContextRef s \<noteq> None" and "list_all quiet es" and "quiet e"
  shows "newly_scheduled s (es @ [e]) =
     newly_scheduled s es @
       (case chunk_of e of
          None \<Rightarrow> []
        | Some (t, d) \<Rightarrow> [(max (nextStartTimeRef (run s es)) t, d)])"
proof -
  note ctx = context_stays [OF assms(1, 2)]
  note old = scheduled_run [OF assms(1, 2)]
  have "scheduled (effects (run s (es @ [e]))) =
      scheduled (effects s) @ newly_scheduled s es @
        (case chunk_of e of
           None \<Rightarrow> []
         | Some (t, d) \<Rightarrow> [(max (nextStartTimeRef (run s es)) t, d)])"
    by (cases rule: quiet_step_cases [OF assms(3) ctx]) (simp_all add: run_snoc old)
  then show ?thesis
    by (simp add: newly_scheduled_def [of s "es @ [e]"])
qed

lemma clock_step:
  assumes "quiet e" and "timed e" and "outputAudioContextRef s \<noteq> None"
    and "binary64 (nextStartTimeRef s) = nextStartTimeRef s"
  shows "nextStartTimeRef s \<le> nextStartTimeRef (step e s)"
    and "binary64 (nextStartTimeRef (step e s)) = nextStartTimeRef (step e s)"
proof -
  have "nextStartTimeRef s \<le> nextStartTimeRef (step e s)
      \<and> binary64 (nextStartTimeRef (step e s)) = nextStartTimeRef (step e s)"
    using assms(1, 3)
  proof (cases rule: quiet_step_cases)
    case idle
    with assms(4) show ?thesis by simp
  next
    case (raised call t m)
    with assms(2) have "binary64 t = t" by (simp add: timed_def)
    with raised assms(4) show ?thesis by (simp add: max_def)
  next
    case (chunk call t m d)
    with assms(2) have "binary64 t = t" by (simp add: timed_def)
    with assms(4) have rep: "binary64 (max (nextStartTimeRef s) t) = max (nextStartTimeRef s) t"
      by (simp add: max_def)
    from chunk(4) have "max (nextStartTimeRef s) t \<le> max (nextStartTimeRef s) t + d" by simp
    from binary64_mono [OF this] rep
    have "max (nextStartTimeRef s) t \<le> binary64 (max (nextStartTimeRef s) t + d)" by simp
    then have "nextStartTimeRef s \<le> binary64 (max (nextStartTimeRef s) t + d)" by simp
    with chunk show ?thesis by (simp add: binary64_idem)
  qed
  then show "nextStartTimeRef s \<le> nextStartTimeRef (step e s)"
    and "binary64 (nextStartTimeRef (step e s)) = nextStartTimeRef (step e s)"
    by simp_all
qed

lemma clock_run:
  assumes "outputAudioContextRef s \<noteq> None"
    and "binary64 (nextStartTimeRef s) = nextStartTimeRef s"
    and "list_all quiet es" and "list_all timed es"
  shows "nextStartTimeRef s \<le> nextStartTimeRef (run s es)"
    and "binary64 (nextStartTimeRef (run s es)) = nextStartTimeRef (run s es)"
proof -
  have "nextStartTimeRef s \<le> nextStartTimeRef (run s es)
      \<and> binary64 (nextStartTimeRef (run s es)) = nextStartTimeRef (run s es)"
    using assms
  proof (induction es arbitrary: s)
    case Nil
    then show ?case by simp
  next
    case (Cons e es)
    from Cons.prems have q: "quiet e" "timed e" and rest: "list_all quiet es" "list_all timed es"
      by simp_all
    note step = clock_step [OF q Cons.prems(1, 2)]
    have ctx: "outputAudioContextRef (step e s) \<noteq> None"
      by (cases rule: quiet_step_cases [OF q(1) Cons.prems(1)])
    from Cons.IH [OF ctx step(2) rest] step(1) show ?case by simp
  qed
  then show "nextStartTimeRef s \<le> nextStartTimeRef (run s es)"
    and "binary64 (nextStartTimeRef (run s es)) = nextStartTimeRef (run s es)"
    by simp_all
qed

lemma enqueue_moves_clock_forward:
  assumes "outputAudioContextRef s \<noteq> None"
    and "binary64 (nextStartTimeRef s) = nextStartTimeRef s"
    and "list_all quiet es" and "list_all timed es" and "k < length es"
  shows "nextStartTimeRef (run s (take k es)) \<le> nextStartTimeRef (run s (take (Suc k) es))"
proof -
  let ?s = "run s (take k es)"
  note q = list_all_take [OF assms(3), of k] and t = list_all_take [OF assms(4), of k]
  have "es ! k \<in> set es" using assms(5) by simp
  with assms(3, 4) have e: "quiet (es ! k)" "timed (es ! k)"
    by (simp_all add: list_all_iff)
  have "run s (take (Suc k) es) = step (es ! k) ?s"
    using assms(5) by (simp add: take_Suc_conv_app_nth run_snoc)
  with clock_step(1) [OF e context_stays [OF assms(1) q] clock_run(2) [OF assms(1, 2) q t]]
  show ?thesis by simp
qed

lemma clock_after_event:
  assumes "quiet e" and "outputAudioContextRef s \<noteq> None"
  shows "chunk_of e = Some (t, d) \<Longrightarrow>
      nextStartTimeRef (step e s) = binary64 (max (nextStartTimeRef s) t + d)"
    and "chunk_of e = None \<Longrightarrow>
      nextStartTimeRef (step e s) = nextStartTimeRef s \<or>
      (\<exists>call t m. e = ServerMessage call t m \<and> payload m \<noteq> None \<and>
         nextStartTimeRef (step e s) = max (nextStartTimeRef s) t)"
  using assms by (cases rule: quiet_step_cases; simp)+

lemma schedule_matches_chunks:
  assumes "outputAudioContextRef s \<noteq> None" and "list_all quiet es"
  shows "list_all2 (\<lambda>(start, d) (t, d'). d = d' \<and> t \<le> start) (newly_scheduled s es) (chunks es)"
  using assms(2)
proof (induction es rule: rev_induct)
  case Nil
  then show ?case by (simp add: newly_scheduled_def chunks_def)
next
  case (snoc e es)
  then have q: "list_all quiet es" "quiet e" by simp_all
  note old = snoc.IH [OF q(1)]
  show ?case
  proof (cases "chunk_of e")
    case None
    with old show ?thesis
      by (simp add: newly_scheduled_snoc [OF assms(1) q] chunks_snoc)
  next
    case (Some c)
    obtain t d where c: "c = (t, d)" by (cases c)
    have "list_all2 (\<lambda>(start, d) (t, d'). d = d' \<and> t \<le> start)
        [(max (nextStartTimeRef (run s es)) t, d)] [(t, d)]"
      by simp
    with old have "list_all2 (\<lambda>(start, d) (t, d'). d = d' \<and> t \<le> start)
        (newly_scheduled s es @ [(max (nextStartTimeRef (run s es)) t, d)]) (chunks es @ [(t, d)])"
      by (rule list_all2_appendI)
    then show ?thesis
      by (simp add: newly_scheduled_snoc [OF assms(1) q] chunks_snoc Some c)
  qed
qed

lemma ends_before_clock:
  assumes "outputAudioContextRef s \<noteq> None"
    and "binary64 (nextStartTimeRef s) = nextStartTimeRef s"
    and "list_all quiet es" and "list_all timed es"
  shows "\<forall>x \<in> set (newly_scheduled s es). binary64 (fst x + snd x) \<le> nextStartTimeRef (run s es)"
  using assms(3, 4)
proof (induction es rule: rev_induct)
  case Nil
  then show ?case by (simp add: newly_scheduled_def)
next
  case (snoc e es)
  then have q: "list_all quiet es" "quiet e" and tm: "list_all timed es" "timed e" by simp_all
  note old = snoc.IH [OF q(1) tm(1)]
  note ctx = context_stays [OF assms(1) q(1)]
  note rep = clock_run(2) [OF assms(1, 2) q(1) tm(1)]
  note forward = clock_step(1) [OF q(2) tm(2) ctx rep]
  have earlier: "\<forall>x \<in> set (newly_scheduled s es).
      binary64 (fst x + snd x) \<le> nextStartTimeRef (run s (es @ [e]))"
    using old forward by (auto simp: run_snoc)
  show ?case
  proof (cases "chunk_of e")
    case None
    with earlier show ?thesis
      by (simp add: newly_scheduled_snoc [OF assms(1) q])
  next
    case (Some c)
    obtain t d where c: "c = (t, d)" by (cases c)
    from clock_after_event(1) [OF q(2) ctx] Some c
    have "nextStartTimeRef (run s (es @ [e])) = binary64 (max (nextStartTimeRef (run s es)) t + d)"
      by (simp add: run_snoc)
    with earlier show ?thesis
      by (simp add: newly_scheduled_snoc [OF assms(1) q] Some c)
  qed
qed

lemma no_overlap:
  assumes "outputAudioContextRef s \<noteq> None"
    and "binary64 (nextStartTimeRef s) = nextStartTimeRef s"
    and "list_all quiet es" and "list_all timed es"
  shows "\<forall>i j. i < j \<and> j < length (newly_scheduled s es) \<longrightarrow>
      binary64 (fst (newly_scheduled s es ! i) + snd (newly_scheduled s es ! i))
        \<le> fst (newly_scheduled s es ! j)"
  using assms(3, 4)
proof (induction es rule: rev_induct)
  case Nil
  then show ?case by (simp add: newly_scheduled_def)
next
  case (snoc e es)
  then have q: "list_all quiet es" "quiet e" and tm: "list_all timed es" "timed e" by simp_all
  note old = snoc.IH [OF q(1) tm(1)]
  let ?sch = "newly_scheduled s es"
  show ?case
  proof (cases "chunk_of e")
    case None
    with old show ?thesis
      by (simp add: newly_scheduled_snoc [OF assms(1) q])
  next
    case (Some c)
    obtain t d where c: "c = (t, d)" by (cases c)
    let ?new = "(max (nextStartTimeRef (run s es)) t, d)"
    have sch: "newly_scheduled s (es @ [e]) = ?sch @ [?new]"
      by (simp add: newly_scheduled_snoc [OF assms(1) q] Some c)
    show ?thesis
      unfolding sch
    proof (intro allI impI)
      fix i j
      assume ij: "i < j \<and> j < length (?sch @ [?new])"
      show "binary64 (fst ((?sch @ [?new]) ! i) + snd ((?sch @ [?new]) ! i)) \<le> fst ((?sch @ [?new]) ! j)"
      proof (cases "j < length ?sch")
        case True
        with ij old show ?thesis by (simp add: nth_append)
      next
        case False
        with ij have j: "j = length ?sch" and i: "i < length ?sch" by simp_all
        from i have "?sch ! i \<in> set ?sch" by simp
        with ends_before_clock [OF assms(1, 2) q(1) tm(1)]
        have "binary64 (fst (?sch ! i) + snd (?sch ! i)) \<le> nextStartTimeRef (run s es)"
          by blast
        then have "binary64 (fst (?sch ! i) + snd (?sch ! i)) \<le> max (nextStartTimeRef (run s es)) t"
          by simp
        with i j show ?thesis by (simp add: nth_append)
      qed
    qed
  qed
qed

lemma not_before_rounded_sum:
  assumes "outputAudioContextRef s \<noteq> None"
    and "binary64 (nextStartTimeRef s) = nextStartTimeRef s"
    and "list_all quiet es" and "list_all timed es"
  shows "(newly_scheduled s es \<noteq> [] \<longrightarrow>
        rounded_sum (fst (newly_scheduled s es ! 0)) (map snd (newly_scheduled s es))
          \<le> nextStartTimeRef (run s es)) \<and>
     (\<forall>i<length (newly_scheduled s es).
        rounded_sum (fst (newly_scheduled s es ! 0)) (map snd (take i (newly_scheduled s es)))
          \<le> fst (newly_scheduled s es ! i))"
  using assms(3, 4)
proof (induction es rule: rev_induct)
  case Nil
  then show ?case by (simp add: newly_scheduled_def)
next
  case (snoc e es)
  then have q: "list_all quiet es" "quiet e" and tm: "list_all timed es" "timed e" by simp_all
  note old = snoc.IH [OF q(1) tm(1)]
  note ctx = context_stays [OF assms(1) q(1)]
  note rep = clock_run(2) [OF assms(1, 2) q(1) tm(1)]
  note forward = clock_step(1) [OF q(2) tm(2) ctx rep]
  let ?sch = "newly_scheduled s es"
  let ?clock = "nextStartTimeRef (run s es)"
  show ?case
  proof (cases "chunk_of e")
    case None
    with old forward show ?thesis
      by (auto simp: newly_scheduled_snoc [OF assms(1) q] run_snoc)
  next
    case (Some c)
    obtain t d where c: "c = (t, d)" by (cases c)
    let ?start = "max ?clock t"
    have sch: "newly_scheduled s (es @ [e]) = ?sch @ [(?start, d)]"
      by (simp add: newly_scheduled_snoc [OF assms(1) q] Some c)
    have clock: "nextStartTimeRef (run s (es @ [e])) = binary64 (?start + d)"
      using clock_after_event(1) [OF q(2) ctx] Some c by (simp add: run_snoc)
    show ?thesis
    proof (cases "?sch = []")
      case True
      then show ?thesis
        by (simp add: sch clock rounded_sum_def)
    next
      case False
      then have first: "(?sch @ [(?start, d)]) ! 0 = ?sch ! 0"
        by (simp add: nth_append)
      from old False have total: "rounded_sum (fst (?sch ! 0)) (map snd ?sch) \<le> ?clock"
        by simp
      then have below: "rounded_sum (fst (?sch ! 0)) (map snd ?sch) \<le> ?start" by simp
      then have "rounded_sum (fst (?sch ! 0)) (map snd ?sch) + d \<le> ?start + d" by simp
      then have "binary64 (rounded_sum (fst (?sch ! 0)) (map snd ?sch) + d) \<le> binary64 (?start + d)"
        by (rule binary64_mono)
      then have a: "rounded_sum (fst (?sch ! 0)) (map snd (?sch @ [(?start, d)]))
          \<le> nextStartTimeRef (run s (es @ [e]))"
        by (simp add: clock rounded_sum_snoc)
      have b: "rounded_sum (fst (?sch ! 0)) (map snd (take i (?sch @ [(?start, d)])))
          \<le> fst ((?sch @ [(?start, d)]) ! i)" if "i < length (?sch @ [(?start, d)])" for i
      proof (cases "i < length ?sch")
        case True
        with old show ?thesis by (simp add: nth_append)
      next
        case False
        with that have "i = length ?sch" by simp
        with below show ?thesis by (simp add: nth_append)
      qed
      from a b show ?thesis
        unfolding sch first by blast
    qed
  qed
qed

lemma punctual_snoc:
  "punctual s (es @ [e]) \<longleftrightarrow>
     punctual s es \<and>
     (case e of
        ServerMessage call t m \<Rightarrow>
          payload m = None \<or> newly_scheduled s es = [] \<or> t \<le> nextStartTimeRef (run s es)
      | _ \<Rightarrow> True)"
proof -
  have same: "list_all
       (\<lambda>k. case (es @ [e]) ! k of
              ServerMessage call t m \<Rightarrow>
                payload m = None \<or> newly_scheduled s (take k (es @ [e])) = [] \<or>
                t \<le> nextStartTimeRef (run s (take k (es @ [e])))
            | _ \<Rightarrow> True)
       [0..<length es] = punctual s es"
    unfolding punctual_def list_all_iff
    by (intro ball_cong refl) (simp add: nth_append cong: event.case_cong)
  have upt: "[0..<length (es @ [e])] = [0..<length es] @ [length es]"
    by simp
  show ?thesis
    unfolding punctual_def [of s "es @ [e]"] upt list_all_append same
    by (simp cong: event.case_cong)
qed

lemma gapless_when_punctual:
  assumes "outputAudioContextRef s \<noteq> None" and "list_all quiet es" and "punctual s es"
  shows "(newly_scheduled s es \<noteq> [] \<longrightarrow>
        nextStartTimeRef (run s es) =
          rounded_sum (fst (newly_scheduled s es ! 0)) (map snd (newly_scheduled s es))) \<and>
     (\<forall>i<length (newly_scheduled s es).
        fst (newly_scheduled s es ! i) =
          rounded_sum (fst (newly_scheduled s es ! 0)) (map snd (take i (newly_scheduled s es))))"
  using assms(2, 3)
proof (induction es rule: rev_induct)
  case Nil
  then show ?case by (simp add: newly_scheduled_def)
next
  case (snoc e es)
  then have q: "list_all quiet es" "quiet e" by simp_all
  from snoc.prems(2) have p: "punctual s es"
    and now: "case e of
        ServerMessage call t m \<Rightarrow>
          payload m = None \<or> newly_scheduled s es = [] \<or> t \<le> nextStartTimeRef (run s es)
      | _ \<Rightarrow> True"
    by (simp_all add: punctual_snoc)
  let ?sch = "newly_scheduled s es"
  let ?clock = "nextStartTimeRef (run s es)"
  note old = snoc.IH [OF q(1) p]
  have total: "?clock = rounded_sum (fst (?sch ! 0)) (map snd ?sch)" if "?sch \<noteq> []"
    using old that by blast
  have starts: "fst (?sch ! i) = rounded_sum (fst (?sch ! 0)) (map snd (take i ?sch))"
    if "i < length ?sch" for i
    using old that by blast
  note ctx = context_stays [OF assms(1) q(1)]
  show ?case
  proof (cases "chunk_of e")
    case None
    have sch: "newly_scheduled s (es @ [e]) = ?sch"
      by (simp add: newly_scheduled_snoc [OF assms(1) q] None)
    have same: "nextStartTimeRef (run s (es @ [e])) = ?clock" if filled: "?sch \<noteq> []"
    proof -
      from clock_after_event(2) [OF q(2) ctx None]
      consider "nextStartTimeRef (step e (run s es)) = ?clock"
        | call t m where "e = ServerMessage call t m" "payload m \<noteq> None"
            "nextStartTimeRef (step e (run s es)) = max ?clock t"
        by blast
      then show ?thesis
      proof cases
        case 1
        then show ?thesis by (simp add: run_snoc)
      next
        case (2 call t m)
        with now filled have "t \<le> ?clock" by simp
        with 2 show ?thesis by (simp add: run_snoc)
      qed
    qed
    show ?thesis
      unfolding sch
    proof (intro conjI impI allI)
      assume filled: "?sch \<noteq> []"
      from same [OF filled] total [OF filled]
      show "nextStartTimeRef (run s (es @ [e])) = rounded_sum (fst (?sch ! 0)) (map snd ?sch)"
        by (simp only:)
    next
      fix i assume "i < length ?sch"
      then show "fst (?sch ! i) = rounded_sum (fst (?sch ! 0)) (map snd (take i ?sch))"
        by (rule starts)
    qed
  next
    case (Some c)
    obtain t d where c: "c = (t, d)" by (cases c)
    let ?start = "max ?clock t"
    have sch: "newly_scheduled s (es @ [e]) = ?sch @ [(?start, d)]"
      by (simp add: newly_scheduled_snoc [OF assms(1) q] Some c)
    have clock: "nextStartTimeRef (run s (es @ [e])) = binary64 (?start + d)"
      using clock_after_event(1) [OF q(2) ctx] Some c by (simp add: run_snoc)
    show ?thesis
    proof (cases "?sch = []")
      case True
      then show ?thesis
        by (simp add: sch clock rounded_sum_def)
    next
      case False
      then have first: "(?sch @ [(?start, d)]) ! 0 = ?sch ! 0"
        by (simp add: nth_append)
      from Some c obtain call m where e: "e = ServerMessage call t m" and "payload m \<noteq> None"
        by (auto simp: chunk_of_def split: event.splits option.splits)
      with now False have "t \<le> ?clock" by simp
      then have start: "?start = ?clock" by simp
      note sum = total [OF False]
      have "rounded_sum (fst (?sch ! 0)) (map snd (?sch @ [(?clock, d)])) =
          binary64 (rounded_sum (fst (?sch ! 0)) (map snd ?sch) + d)"
        by (simp add: rounded_sum_snoc)
      also have "\<dots> = binary64 (?clock + d)"
        by (simp only: sum [symmetric])
      finally have a: "nextStartTimeRef (run s (es @ [e])) =
          rounded_sum (fst (?sch ! 0)) (map snd (?sch @ [(?start, d)]))"
        unfolding clock start by (rule sym)
      have b: "fst ((?sch @ [(?start, d)]) ! i) =
          rounded_sum (fst (?sch ! 0)) (map snd (take i (?sch @ [(?start, d)])))"
        if "i < length (?sch @ [(?start, d)])" for i
      proof (cases "i < length ?sch")
        case True
        then have "(?sch @ [(?start, d)]) ! i = ?sch ! i"
          and "take i (?sch @ [(?start, d)]) = take i ?sch"
          by (simp_all add: nth_append)
        with starts [OF True] show ?thesis by (simp only:)
      next
        case False
        with that have i: "i = length ?sch" by simp
        have "fst ((?sch @ [(?start, d)]) ! i) = ?clock"
          by (simp add: i start)
        moreover have "take i (?sch @ [(?start, d)]) = ?sch"
          by (simp add: i)
        ultimately show ?thesis
          using sum by (simp only:)
      qed
      from a b show ?thesis
        unfolding sch first by blast
    qed
  qed
qed

lemma exact_no_overlap:
  assumes "exact_ends sch"
    and "\<forall>i j. i < j \<and> j < length sch \<longrightarrow> binary64 (fst (sch ! i) + snd (sch ! i)) \<le> fst (sch ! j)"
  shows "\<forall>i j. i < j \<and> j < length sch \<longrightarrow> fst (sch ! i) + snd (sch ! i) \<le> fst (sch ! j)"
proof (intro allI impI)
  fix i j
  assume ij: "i < j \<and> j < length sch"
  then have "sch ! i \<in> set sch" by simp
  with assms(1) have "binary64 (fst (sch ! i) + snd (sch ! i)) = fst (sch ! i) + snd (sch ! i)"
    by (auto simp: exact_ends_def list_all_iff)
  with assms(2) ij show "fst (sch ! i) + snd (sch ! i) \<le> fst (sch ! j)"
    by metis
qed

lemma sum_take_Suc:
  "i < length sch \<Longrightarrow>
     sum_list (map snd (take (Suc i) sch)) = sum_list (map snd (take i sch)) + snd (sch ! i)"
  by (simp add: take_Suc_conv_app_nth)

lemma not_before_sum:
  assumes "\<forall>i j. i < j \<and> j < length sch \<longrightarrow> fst (sch ! i) + snd (sch ! i) \<le> (fst (sch ! j) :: real)"
  shows "i < length sch \<Longrightarrow> fst (sch ! 0) + sum_list (map snd (take i sch)) \<le> fst (sch ! i)"
proof (induction i)
  case 0
  then show ?case by simp
next
  case (Suc i)
  then have i: "i < length sch" by simp
  from assms Suc.prems have "fst (sch ! i) + snd (sch ! i) \<le> fst (sch ! Suc i)" by simp
  with Suc.IH [OF i] show ?case
    by (simp add: sum_take_Suc [OF i])
qed

lemma exact_gapless:
  assumes "exact_ends sch"
    and "\<forall>i<length sch. fst (sch ! i) = rounded_sum (fst (sch ! 0)) (map snd (take i sch))"
  shows "i < length sch \<Longrightarrow> fst (sch ! i) = fst (sch ! 0) + sum_list (map snd (take i sch))"
proof (induction i)
  case 0
  then show ?case by simp
next
  case (Suc i)
  then have i: "i < length sch" by simp
  then have "sch ! i \<in> set sch" by simp
  with assms(1) have exact: "binary64 (fst (sch ! i) + snd (sch ! i)) = fst (sch ! i) + snd (sch ! i)"
    by (auto simp: exact_ends_def list_all_iff)
  from assms(2) Suc.prems
  have "fst (sch ! Suc i) = rounded_sum (fst (sch ! 0)) (map snd (take (Suc i) sch))" by simp
  also have "\<dots> = binary64 (rounded_sum (fst (sch ! 0)) (map snd (take i sch)) + snd (sch ! i))"
    using i by (simp add: take_Suc_conv_app_nth rounded_sum_snoc)
  also have "\<dots> = binary64 (fst (sch ! i) + snd (sch ! i))"
    using assms(2) i by simp
  also have "\<dots> = fst (sch ! 0) + sum_list (map snd (take i sch)) + snd (sch ! i)"
    using exact Suc.IH [OF i] by simp
  finally show ?case
    by (simp add: sum_take_Suc [OF i])
qed

text \<open>
  C1, as amended. Among events with no flush (messages with or without audio, sources
  that end, microphone frames, contexts that close), from a state that has an output
  context: one buffer is started for every chunk, in the order of arrival, with the
  duration of its chunk and not before the chunk is handled. The clock never moves
  backward. Every addition of line 542 is rounded to a number. No buffer starts before
  the rounded end of a buffer started before it. The start of the i-th is at least the
  start of the first with the durations before it added one by one, each sum rounded,
  and it is that sum when no message with a payload is handled after the clock has
  passed (an underrun; line 535 then moves the start to the device time and leaves a
  gap). Where the additions are exact these are the plain statements: no two buffers
  overlap, and without an underrun the i-th starts at the start of the first plus the
  sum of the durations before it.
\<close>

theorem playback_schedule:
  "outputAudioContextRef s \<noteq> None \<and> binary64 (nextStartTimeRef s) = nextStartTimeRef s \<and>
   list_all quiet es \<and> list_all timed es \<and> sch = newly_scheduled s es \<longrightarrow>
     length sch = length (chunks es) \<and>
     map snd sch = map snd (chunks es) \<and>
     (\<forall>i<length sch. fst (chunks es ! i) \<le> fst (sch ! i)) \<and>
     (\<forall>i j. i < j \<and> j < length sch \<longrightarrow>
        binary64 (fst (sch ! i) + snd (sch ! i)) \<le> fst (sch ! j)) \<and>
     (\<forall>i<length sch. rounded_sum (fst (sch ! 0)) (map snd (take i sch)) \<le> fst (sch ! i)) \<and>
     (punctual s es \<longrightarrow>
        (\<forall>i<length sch. fst (sch ! i) = rounded_sum (fst (sch ! 0)) (map snd (take i sch)))) \<and>
     (exact_ends sch \<longrightarrow>
        (\<forall>i j. i < j \<and> j < length sch \<longrightarrow> fst (sch ! i) + snd (sch ! i) \<le> fst (sch ! j)) \<and>
        (\<forall>i<length sch. fst (sch ! 0) + sum_list (map snd (take i sch)) \<le> fst (sch ! i)) \<and>
        (punctual s es \<longrightarrow>
           (\<forall>i<length sch. fst (sch ! i) = fst (sch ! 0) + sum_list (map snd (take i sch))))) \<and>
     (\<forall>k<length es.
        nextStartTimeRef (run s (take k es)) \<le> nextStartTimeRef (run s (take (Suc k) es))) \<and>
     nextStartTimeRef s \<le> nextStartTimeRef (run s es)"
proof (intro impI)
  assume a: "outputAudioContextRef s \<noteq> None \<and> binary64 (nextStartTimeRef s) = nextStartTimeRef s \<and>
    list_all quiet es \<and> list_all timed es \<and> sch = newly_scheduled s es"
  then have ctx: "outputAudioContextRef s \<noteq> None"
    and rep: "binary64 (nextStartTimeRef s) = nextStartTimeRef s"
    and q: "list_all quiet es" and tm: "list_all timed es"
    and sch: "sch = newly_scheduled s es"
    by simp_all
  note match = schedule_matches_chunks [OF ctx q, folded sch]
  have len: "length sch = length (chunks es)"
    using match by (rule list_all2_lengthD)
  have each: "snd (sch ! i) = snd (chunks es ! i) \<and> fst (chunks es ! i) \<le> fst (sch ! i)"
    if "i < length sch" for i
    using list_all2_nthD [OF match that] by (auto simp: case_prod_beta)
  have durations: "map snd sch = map snd (chunks es)"
    using len each by (intro nth_equalityI) simp_all
  have arrival: "\<forall>i<length sch. fst (chunks es ! i) \<le> fst (sch ! i)"
    using each by blast
  note apart = no_overlap [OF ctx rep q tm, folded sch]
  note bound = not_before_rounded_sum [OF ctx rep q tm, folded sch, THEN conjunct2]
  have gapless: "\<forall>i<length sch. fst (sch ! i) = rounded_sum (fst (sch ! 0)) (map snd (take i sch))"
    if "punctual s es"
    using gapless_when_punctual [OF ctx q that, folded sch] by blast
  have exact: "(\<forall>i j. i < j \<and> j < length sch \<longrightarrow> fst (sch ! i) + snd (sch ! i) \<le> fst (sch ! j)) \<and>
      (\<forall>i<length sch. fst (sch ! 0) + sum_list (map snd (take i sch)) \<le> fst (sch ! i)) \<and>
      (punctual s es \<longrightarrow>
         (\<forall>i<length sch. fst (sch ! i) = fst (sch ! 0) + sum_list (map snd (take i sch))))"
    if e: "exact_ends sch"
  proof (intro conjI impI allI)
    note plain = exact_no_overlap [OF e apart]
    fix i j
    assume "i < j \<and> j < length sch"
    with plain show "fst (sch ! i) + snd (sch ! i) \<le> fst (sch ! j)" by blast
  next
    note plain = exact_no_overlap [OF e apart]
    fix i
    assume "i < length sch"
    then show "fst (sch ! 0) + sum_list (map snd (take i sch)) \<le> fst (sch ! i)"
      by (rule not_before_sum [OF plain])
  next
    fix i
    assume "punctual s es" and i: "i < length sch"
    from exact_gapless [OF e gapless [OF this(1)] i]
    show "fst (sch ! i) = fst (sch ! 0) + sum_list (map snd (take i sch))" .
  qed
  have forward: "\<forall>k<length es.
      nextStartTimeRef (run s (take k es)) \<le> nextStartTimeRef (run s (take (Suc k) es))"
    using enqueue_moves_clock_forward [OF ctx rep q tm] by blast
  note whole = clock_run(1) [OF ctx rep q tm]
  from len durations arrival apart bound gapless exact forward whole
  show "length sch = length (chunks es) \<and>
     map snd sch = map snd (chunks es) \<and>
     (\<forall>i<length sch. fst (chunks es ! i) \<le> fst (sch ! i)) \<and>
     (\<forall>i j. i < j \<and> j < length sch \<longrightarrow>
        binary64 (fst (sch ! i) + snd (sch ! i)) \<le> fst (sch ! j)) \<and>
     (\<forall>i<length sch. rounded_sum (fst (sch ! 0)) (map snd (take i sch)) \<le> fst (sch ! i)) \<and>
     (punctual s es \<longrightarrow>
        (\<forall>i<length sch. fst (sch ! i) = rounded_sum (fst (sch ! 0)) (map snd (take i sch)))) \<and>
     (exact_ends sch \<longrightarrow>
        (\<forall>i j. i < j \<and> j < length sch \<longrightarrow> fst (sch ! i) + snd (sch ! i) \<le> fst (sch ! j)) \<and>
        (\<forall>i<length sch. fst (sch ! 0) + sum_list (map snd (take i sch)) \<le> fst (sch ! i)) \<and>
        (punctual s es \<longrightarrow>
           (\<forall>i<length sch. fst (sch ! i) = fst (sch ! 0) + sum_list (map snd (take i sch))))) \<and>
     (\<forall>k<length es.
        nextStartTimeRef (run s (take k es)) \<le> nextStartTimeRef (run s (take (Suc k) es))) \<and>
     nextStartTimeRef s \<le> nextStartTimeRef (run s es)"
    by (intro conjI impI) blast+
qed

lemma live0_output: "outputAudioContextRef live0 \<noteq> None"
  by (simp add: live0_eq)

lemma live0_clock: "nextStartTimeRef live0 = 0"
  by (simp add: live0_eq)

lemma chunk_of_audio:
  "chunk_of (ServerMessage call t (audio ''AAA='')) = Some (t, binary64 (1 / 24000))"
  by (simp add: chunk_of_def payload_audio chunk_one_frame)

lemma quiet_audio: "quiet (ServerMessage call t (audio b))"
  by (simp add: quiet_def audio_def silent_def)

lemma punctual_at_zero:
  assumes "outputAudioContextRef s \<noteq> None" and "nextStartTimeRef s = 0"
    and "list_all quiet es" and "list_all timed es"
    and "list_all (\<lambda>e. case e of ServerMessage call t m \<Rightarrow> t \<le> 0 | _ \<Rightarrow> True) es"
  shows "punctual s es"
  unfolding punctual_def list_all_iff
proof
  fix k
  assume "k \<in> set [0..<length es]"
  then have k: "k < length es" by simp
  have rep: "binary64 (nextStartTimeRef s) = nextStartTimeRef s"
    by (simp add: assms(2) binary64_zero)
  from clock_run(1) [OF assms(1) rep list_all_take [OF assms(3)] list_all_take [OF assms(4)], of k]
  have clock: "0 \<le> nextStartTimeRef (run s (take k es))"
    by (simp add: assms(2))
  from k have "es ! k \<in> set es" by simp
  with assms(5) have early: "case es ! k of ServerMessage call t m \<Rightarrow> t \<le> 0 | _ \<Rightarrow> True"
    by (simp add: list_all_iff)
  show "case es ! k of
      ServerMessage call t m \<Rightarrow>
        payload m = None \<or> newly_scheduled s (take k es) = [] \<or>
        t \<le> nextStartTimeRef (run s (take k es))
    | _ \<Rightarrow> True"
  proof (cases "es ! k")
    case (ServerMessage call t m)
    with early have "t \<le> 0" by simp
    with clock ServerMessage show ?thesis by simp
  qed simp_all
qed

lemma binary64_eval:
  assumes "0 < x" and "2 powi e \<le> x" and "x < 2 powi (e + 1)" and "- 1022 \<le> e"
  shows "binary64 x = 2 powi (e - 52) * of_int (round_half_even (x / 2 powi (e - 52)))"
proof -
  from assms(1-3) have "exponent x = e" by (rule exponent_unique)
  with assms(4) have "ulp x = 2 powi (e - 52)" by (simp add: ulp_def)
  with assms(1) show ?thesis by (simp add: binary64_positive round_magnitude_def)
qed

text \<open>
  The duration of one frame at 24 kHz as a number, and the sums that four additions of
  it give. The third and the fourth are rounded, one up and one down.
\<close>

lemma frame_value: "binary64 (1 / 24000) = 6148914691236517 / 147573952589676412928"
  by (subst binary64_eval [of _ "- 15"]) (simp_all add: round_half_even_def Let_def)

lemma one_frame_sum:
  "binary64 (6148914691236517 / 147573952589676412928) = 6148914691236517 / 147573952589676412928"
  using binary64_idem [of "1 / 24000"] by (simp only: frame_value)

lemma two_frames_sum:
  "binary64 (6148914691236517 / 73786976294838206464) = 6148914691236517 / 73786976294838206464"
  by (subst binary64_eval [of _ "- 14"]) (simp_all add: round_half_even_def Let_def)

lemma three_frames_sum:
  "binary64 (18446744073709551 / 147573952589676412928) = 1152921504606847 / 9223372036854775808"
  by (subst binary64_eval [of _ "- 13"]) (simp_all add: round_half_even_def Let_def)

lemma four_frames_sum:
  "binary64 (24595658764946069 / 147573952589676412928) = 6148914691236517 / 36893488147419103232"
  by (subst binary64_eval [of _ "- 13"]) (simp_all add: round_half_even_def Let_def)

lemma frames_Suc: "frames (Suc n) = frames n @ [ServerMessage 0 0 (audio ''AAA='')]"
  by (simp add: frames_def replicate_append_same)

lemma quiet_frames: "list_all quiet (frames n)"
  by (simp add: frames_def list_all_iff quiet_audio)

lemma chunks_frames: "chunks (frames n) = replicate n (0, binary64 (1 / 24000))"
proof (induction n)
  case 0
  then show ?case by (simp add: frames_def chunks_def List.map_filter_def)
next
  case (Suc n)
  then show ?case
    by (simp add: frames_Suc chunks_snoc chunk_of_audio replicate_append_same)
qed

lemma frames_step:
  "newly_scheduled live0 (frames (Suc n)) =
     newly_scheduled live0 (frames n) @
       [(max (nextStartTimeRef (run live0 (frames n))) 0, 6148914691236517 / 147573952589676412928)]"
  "nextStartTimeRef (run live0 (frames (Suc n))) =
     binary64 (max (nextStartTimeRef (run live0 (frames n))) 0
       + 6148914691236517 / 147573952589676412928)"
proof -
  note ctx = context_stays [OF live0_output quiet_frames, of n]
  show "newly_scheduled live0 (frames (Suc n)) =
     newly_scheduled live0 (frames n) @
       [(max (nextStartTimeRef (run live0 (frames n))) 0, 6148914691236517 / 147573952589676412928)]"
    unfolding frames_Suc
    by (simp add: newly_scheduled_snoc [OF live0_output quiet_frames quiet_audio] chunk_of_audio
        frame_value)
  show "nextStartTimeRef (run live0 (frames (Suc n))) =
     binary64 (max (nextStartTimeRef (run live0 (frames n))) 0
       + 6148914691236517 / 147573952589676412928)"
    unfolding frames_Suc run_snoc
    using clock_after_event(1) [OF quiet_audio ctx chunk_of_audio, of 0 0]
    by (simp add: frame_value)
qed

lemma five_frames:
  "newly_scheduled live0 (frames 5) =
     [(0, 6148914691236517 / 147573952589676412928),
      (6148914691236517 / 147573952589676412928, 6148914691236517 / 147573952589676412928),
      (6148914691236517 / 73786976294838206464, 6148914691236517 / 147573952589676412928),
      (1152921504606847 / 9223372036854775808, 6148914691236517 / 147573952589676412928),
      (6148914691236517 / 36893488147419103232, 6148914691236517 / 147573952589676412928)]"
proof -
  have n0: "newly_scheduled live0 (frames 0) = []"
    and c0: "nextStartTimeRef (run live0 (frames 0)) = 0"
    by (simp_all add: frames_def newly_scheduled_def live0_clock)
  have c1: "nextStartTimeRef (run live0 (frames (Suc 0))) = 6148914691236517 / 147573952589676412928"
    by (simp add: frames_step c0 one_frame_sum)
  have c2: "nextStartTimeRef (run live0 (frames (Suc (Suc 0)))) =
      6148914691236517 / 73786976294838206464"
    by (simp add: frames_step(2) [of "Suc 0"] c1 two_frames_sum)
  have c3: "nextStartTimeRef (run live0 (frames (Suc (Suc (Suc 0))))) =
      1152921504606847 / 9223372036854775808"
    by (simp add: frames_step(2) [of "Suc (Suc 0)"] c2 three_frames_sum)
  have c4: "nextStartTimeRef (run live0 (frames (Suc (Suc (Suc (Suc 0)))))) =
      6148914691236517 / 36893488147419103232"
    by (simp add: frames_step(2) [of "Suc (Suc (Suc 0))"] c3 four_frames_sum)
  have five: "(5::nat) = Suc (Suc (Suc (Suc (Suc 0))))" by simp
  show ?thesis
    unfolding five
    by (simp add: frames_step(1) n0 c0 c1 c2 c3 c4)
qed

theorem playback_schedule_witness:
  "outputAudioContextRef live0 \<noteq> None \<and> binary64 (nextStartTimeRef live0) = nextStartTimeRef live0 \<and>
   list_all quiet
     [ServerMessage 0 0 (audio ''AAA=''), ServerMessage 0 0 heard, SourceEnded 7,
      AudioProcess [], ServerMessage 0 0 (audio ''AAA='')] \<and>
   list_all timed
     [ServerMessage 0 0 (audio ''AAA=''), ServerMessage 0 0 heard, SourceEnded 7,
      AudioProcess [], ServerMessage 0 0 (audio ''AAA='')] \<and>
   punctual live0
     [ServerMessage 0 0 (audio ''AAA=''), ServerMessage 0 0 heard, SourceEnded 7,
      AudioProcess [], ServerMessage 0 0 (audio ''AAA='')] \<and>
   chunks
     [ServerMessage 0 0 (audio ''AAA=''), ServerMessage 0 0 heard, SourceEnded 7,
      AudioProcess [], ServerMessage 0 0 (audio ''AAA='')] =
     [(0, binary64 (1 / 24000)), (0, binary64 (1 / 24000))] \<and>
   newly_scheduled live0
     [ServerMessage 0 0 (audio ''AAA=''), ServerMessage 0 0 heard, SourceEnded 7,
      AudioProcess [], ServerMessage 0 0 (audio ''AAA='')] =
     [(0, binary64 (1 / 24000)), (binary64 (1 / 24000), binary64 (1 / 24000))] \<and>
   exact_ends [(0, binary64 (1 / 24000)), (binary64 (1 / 24000), binary64 (1 / 24000))] \<and>
   map snd (newly_scheduled live0
     [ServerMessage 0 0 (audio ''AAA=''), ServerMessage 0 0 heard, SourceEnded 7,
      AudioProcess [], ServerMessage 0 0 (audio ''AAA='')]) =
     [binary64 (1 / 24000), binary64 (1 / 24000)] \<and>
   binary64 (0 + binary64 (1 / 24000)) \<le> binary64 (1 / 24000) \<and>
   binary64 (1 / 24000) = 0 + sum_list [binary64 (1 / 24000)] \<and>
   nextStartTimeRef live0 \<le> nextStartTimeRef (run live0
     [ServerMessage 0 0 (audio ''AAA=''), ServerMessage 0 0 heard, SourceEnded 7,
      AudioProcess [], ServerMessage 0 0 (audio ''AAA='')])"
proof -
  let ?es = "[ServerMessage 0 0 (audio ''AAA=''), ServerMessage 0 0 heard, SourceEnded 7,
      AudioProcess [], ServerMessage 0 0 (audio ''AAA='')]"
  let ?d = "binary64 (1 / 24000)"
  let ?sch = "[(0, ?d), (?d, ?d)]"
  have rep: "binary64 (nextStartTimeRef live0) = nextStartTimeRef live0"
    by (simp add: live0_clock binary64_zero)
  have q: "list_all quiet ?es"
    by (simp add: quiet_def audio_def silent_def heard_def)
  have tm: "list_all timed ?es"
    by (simp add: timed_def binary64_zero)
  have p: "punctual live0 ?es"
    by (rule punctual_at_zero [OF live0_output live0_clock q tm]) simp
  have silent_heard: "payload heard = None"
    by (simp add: payload_def base64Audio_def heard_def silent_def)
  have cs: "chunks ?es = [(0, ?d), (0, ?d)]"
    by (simp add: chunks_def List.map_filter_def chunk_of_audio)
      (simp add: chunk_of_def silent_heard)
  have d0: "max ?d 0 = ?d"
    using frame_positive by simp
  have val: "newly_scheduled live0 ?es = ?sch"
    by (simp add: newly_scheduled_def on_message_def append_output_transcription_def
        append_input_transcription_def complete_turn_def play_audio_def base64Audio_def
        audio_def silent_def heard_def js_text_def enqueue_scheduled [OF chunk_one_frame]
        live0_eq source_ended_def on_audio_process_def perform_def binary64_idem d0)
  have exact: "exact_ends ?sch"
    by (simp add: exact_ends_def binary64_idem)
      (simp add: frame_value two_frames_sum)
  have hyp: "outputAudioContextRef live0 \<noteq> None \<and>
      binary64 (nextStartTimeRef live0) = nextStartTimeRef live0 \<and>
      list_all quiet ?es \<and> list_all timed ?es \<and> ?sch = newly_scheduled live0 ?es"
    using live0_output rep q tm val by simp
  note inst = playback_schedule [of live0 ?es ?sch, THEN mp, OF hyp]
  note durations = inst [THEN conjunct2, THEN conjunct1]
  note apart = inst [THEN conjunct2, THEN conjunct2, THEN conjunct2, THEN conjunct1]
  note plain = inst [THEN conjunct2, THEN conjunct2, THEN conjunct2, THEN conjunct2,
    THEN conjunct2, THEN conjunct2, THEN conjunct1, THEN mp, OF exact]
  note clock = inst [THEN conjunct2, THEN conjunct2, THEN conjunct2, THEN conjunct2,
    THEN conjunct2, THEN conjunct2, THEN conjunct2, THEN conjunct2]
  have one: "0 < (1::nat) \<and> 1 < length ?sch" by simp
  from apart [rule_format, OF one]
  have apart01: "binary64 (0 + ?d) \<le> ?d" by simp
  have len: "1 < length ?sch" by simp
  from plain [THEN conjunct2, THEN conjunct2, THEN mp, OF p, rule_format, OF len]
  have sum: "?d = 0 + sum_list [?d]" by simp
  from durations cs have ds: "map snd (newly_scheduled live0 ?es) = [?d, ?d]"
    by (simp add: val)
  from live0_output rep q tm p cs val exact ds apart01 sum clock
  show ?thesis by (intro conjI)
qed

text \<open>
  Two ways in which the start of a buffer is not the start of the first plus the
  durations before it. An underrun: of two chunks of one frame, the second is handled
  at device time 5, long after the first has ended, and starts at 5. Rounding: of five
  chunks of one frame handled at once, the fourth starts later than the start of the
  first plus three durations, and the fifth starts before the fourth has ended.
\<close>

theorem late_chunk_starts_at_device_time:
  "list_all quiet [ServerMessage 0 0 (audio ''AAA=''), ServerMessage 0 5 (audio ''AAA='')] \<and>
   chunks [ServerMessage 0 0 (audio ''AAA=''), ServerMessage 0 5 (audio ''AAA='')] =
     [(0, binary64 (1 / 24000)), (5, binary64 (1 / 24000))] \<and>
   binary64 (1 / 24000) \<le> 1 \<and>
   newly_scheduled live0 [ServerMessage 0 0 (audio ''AAA=''), ServerMessage 0 5 (audio ''AAA='')] =
     [(0, binary64 (1 / 24000)), (5, binary64 (1 / 24000))] \<and>
   fst (newly_scheduled live0
     [ServerMessage 0 0 (audio ''AAA=''), ServerMessage 0 5 (audio ''AAA='')] ! 1) \<noteq>
   fst (newly_scheduled live0
     [ServerMessage 0 0 (audio ''AAA=''), ServerMessage 0 5 (audio ''AAA='')] ! 0) +
   sum_list (map snd (take 1 (newly_scheduled live0
     [ServerMessage 0 0 (audio ''AAA=''), ServerMessage 0 5 (audio ''AAA='')]))) \<and>
   list_all quiet (frames 5) \<and>
   chunks (frames 5) = replicate 5 (0, 6148914691236517 / 147573952589676412928) \<and>
   newly_scheduled live0 (frames 5) =
     [(0, 6148914691236517 / 147573952589676412928),
      (6148914691236517 / 147573952589676412928, 6148914691236517 / 147573952589676412928),
      (6148914691236517 / 73786976294838206464, 6148914691236517 / 147573952589676412928),
      (1152921504606847 / 9223372036854775808, 6148914691236517 / 147573952589676412928),
      (6148914691236517 / 36893488147419103232, 6148914691236517 / 147573952589676412928)] \<and>
   fst (newly_scheduled live0 (frames 5) ! 3) \<noteq>
     fst (newly_scheduled live0 (frames 5) ! 0) +
     sum_list (map snd (take 3 (newly_scheduled live0 (frames 5)))) \<and>
   fst (newly_scheduled live0 (frames 5) ! 4) <
     fst (newly_scheduled live0 (frames 5) ! 3) + snd (newly_scheduled live0 (frames 5) ! 3)"
proof -
  let ?es = "[ServerMessage 0 0 (audio ''AAA=''), ServerMessage 0 5 (audio ''AAA='')]"
  let ?d = "binary64 (1 / 24000)"
  have q: "list_all quiet ?es"
    by (simp add: quiet_audio)
  have cs: "chunks ?es = [(0, ?d), (5, ?d)]"
    by (simp add: chunks_def List.map_filter_def chunk_of_audio)
  have late: "max ?d 5 = 5"
    using frame_at_most_one by simp
  have val: "newly_scheduled live0 ?es = [(0, ?d), (5, ?d)]"
    by (simp add: newly_scheduled_def on_message_def append_output_transcription_def
        append_input_transcription_def complete_turn_def play_audio_def base64Audio_def
        audio_def silent_def enqueue_scheduled [OF chunk_one_frame] live0_eq binary64_idem late)
  have gap: "fst (newly_scheduled live0 ?es ! 1) \<noteq>
      fst (newly_scheduled live0 ?es ! 0) + sum_list (map snd (take 1 (newly_scheduled live0 ?es)))"
    unfolding val using frame_at_most_one by simp
  have burst: "chunks (frames 5) = replicate 5 (0, 6148914691236517 / 147573952589676412928)"
    by (simp add: chunks_frames frame_value)
  have early: "fst (newly_scheduled live0 (frames 5) ! 3) \<noteq>
      fst (newly_scheduled live0 (frames 5) ! 0) +
      sum_list (map snd (take 3 (newly_scheduled live0 (frames 5))))"
    unfolding five_frames by (simp add: eval_nat_numeral)
  have overlap: "fst (newly_scheduled live0 (frames 5) ! 4) <
      fst (newly_scheduled live0 (frames 5) ! 3) + snd (newly_scheduled live0 (frames 5) ! 3)"
    unfolding five_frames by (simp add: eval_nat_numeral)
  from q cs frame_at_most_one val gap quiet_frames burst five_frames early overlap
  show ?thesis by (intro conjI)
qed

end
